theory Spec2Isabelle
  imports Main
begin

section \<open>JavaScript strings\<close>

text \<open>
  Strings are modelled as \<^typ>\<open>string\<close>, a character standing for a code unit below 256. The
  white space of \<open>String.prototype.trim\<close> and of the regular expression class \<open>\s\<close> is, in
  that range, tab, line feed, vertical tab, form feed, carriage return, space and the
  no-break space.
\<close>

definition isSpace :: "char \<Rightarrow> bool" where
  "isSpace c = (c \<in> set [CHR 0x09, CHR 0x0A, CHR 0x0B, CHR 0x0C, CHR 0x0D, CHR '' '', CHR 0xA0])"

definition startsWith :: "string \<Rightarrow> string \<Rightarrow> bool" where
  "startsWith s p = (take (length p) s = p)"

definition endsWith :: "string \<Rightarrow> string \<Rightarrow> bool" where
  "endsWith s p = (length p \<le> length s \<and> drop (length s - length p) s = p)"

definition trimStart :: "string \<Rightarrow> string" where
  "trimStart s = dropWhile isSpace s"

definition trimEnd :: "string \<Rightarrow> string" where
  "trimEnd s = rev (dropWhile isSpace (rev s))"

definition trim :: "string \<Rightarrow> string" where
  "trim s = trimEnd (trimStart s)"

text \<open>\<open>text.split("\n")\<close>: the result is never empty, and a final line feed gives a final
  empty string.\<close>

fun split_nl :: "string \<Rightarrow> string list" where
  "split_nl [] = [[]]"
| "split_nl (c # cs) =
     (if c = CHR 0x0A then [] # split_nl cs
      else (case split_nl cs of [] \<Rightarrow> [[c]] | l # ls \<Rightarrow> (c # l) # ls))"

text \<open>\<open>lines.join("\n")\<close>.\<close>

fun join_nl :: "string list \<Rightarrow> string" where
  "join_nl [] = []"
| "join_nl [l] = l"
| "join_nl (l # ls) = l @ CHR 0x0A # join_nl ls"

text \<open>\<open>s.split(/\s+/)\<close>: the separators are the maximal runs of white space.\<close>

function split_ws :: "string \<Rightarrow> string list" where
  "split_ws [] = [[]]"
| "split_ws (c # cs) =
     (if isSpace c then [] # split_ws (dropWhile isSpace cs)
      else (case split_ws cs of [] \<Rightarrow> [[c]] | l # ls \<Rightarrow> (c # l) # ls))"
  by pat_completeness auto
termination
  by (relation "measure length") (auto simp: le_imp_less_Suc length_dropWhile_le)

section \<open>Store references and credentials\<close>

text \<open>The character class \<open>[a-z0-9_-]\<close>.\<close>

definition labelChar :: "char \<Rightarrow> bool" where
  "labelChar c = (c \<in> set ''abcdefghijklmnopqrstuvwxyz0123456789_-'')"

text \<open>\<open>/^[a-z0-9_-]+$/.test(s)\<close>.\<close>

definition matchesLabel :: "string \<Rightarrow> bool" where
  "matchesLabel s = (s \<noteq> [] \<and> list_all labelChar s)"

text \<open>\<open>/^([a-z0-9_-]+)SUFFIX$/.test(s)\<close> for a literal suffix: as the suffix is fixed, the
  label is the rest of the string.\<close>

definition matchesLabelSuffix :: "string \<Rightarrow> string \<Rightarrow> bool" where
  "matchesLabelSuffix suffix s =
     (endsWith s suffix \<and> matchesLabel (take (length s - length suffix) s))"

text \<open>The four stripping statements of \<open>parseStoreReference\<close>, in the order of the source.\<close>

definition strippedReference :: "string \<Rightarrow> string" where
  "strippedReference store0 =
     (let store1 = (if endsWith store0 ''/'' then butlast store0 else store0);
          store2 = (if startsWith store1 ''https://'' then drop 8 store1 else store1);
          store3 = (if startsWith store2 ''http://'' then drop 7 store2 else store2)
      in if startsWith store3 ''//'' then drop 2 store3 else store3)"

definition parseStoreReference :: "string \<Rightarrow> bool \<times> string" where
  "parseStoreReference store0 =
     (let store = strippedReference store0
      in if store = ''test'' then (True, ''test.localhost'')
         else if matchesLabelSuffix ''.jumpseller.com'' store then (True, store)
         else if matchesLabelSuffix ''.localhost'' store then (True, store)
         else if matchesLabel store then (True, store @ ''.jumpseller.com'')
         else (False, store))"

text \<open>The character class \<open>[0-9a-f]\<close> and the quantified group \<open>[0-9a-f]{32,50}\<close>.\<close>

definition hexChar :: "char \<Rightarrow> bool" where
  "hexChar c = (c \<in> set ''0123456789abcdef'')"

definition hexRun :: "string \<Rightarrow> bool" where
  "hexRun s = (32 \<le> length s \<and> length s \<le> 50 \<and> list_all hexChar s)"

text \<open>\<open>/^[0-9a-f]{32,50}:[0-9a-f]{32,50}$/.test(credentials)\<close>: the first group cannot
  contain a colon, so it is the text before the first colon.\<close>

definition validCredentials :: "string \<Rightarrow> bool" where
  "validCredentials credentials =
     (case dropWhile (\<lambda>c. c \<noteq> CHR '':'') credentials of
        [] \<Rightarrow> False
      | _ # rest \<Rightarrow> hexRun (takeWhile (\<lambda>c. c \<noteq> CHR '':'') credentials) \<and> hexRun rest)"

section \<open>Path policy of the theme watcher\<close>

text \<open>The two glob lists of \<open>ThemeWatcher\<close>. \<open>micromatch.isMatch\<close> is a library function
  and a parameter of the model.\<close>

record watcher =
  allowlist :: "string list"
  blocklist :: "string list"

definition isKnownPath ::
  "(string \<Rightarrow> string list \<Rightarrow> bool) \<Rightarrow> 'a watcher_scheme \<Rightarrow> string \<Rightarrow> bool" where
  "isKnownPath isMatch w path =
     (if isMatch path (allowlist w) then True
      else if isMatch path (blocklist w) then False
      else if startsWith path ''partials/'' then True
      else if startsWith path ''components/'' then True
      else if startsWith path ''templates/'' then True
      else if startsWith path ''assets/library/'' then False
      else if startsWith path ''assets/'' then True
      else if startsWith path ''config/'' then True
      else False)"

section \<open>Paths and the file system\<close>

text \<open>
  \<open>path.join(dir, name)\<close> and \<open>path.dirname(path)\<close> of Node.js on POSIX, for a normalised
  directory and a plain file name. \<open>dirname\<close> follows the library's scan from the end of
  the path: trailing slashes are skipped, then the last component, and the path is cut at
  the slash before it.
\<close>

definition pjoin :: "string \<Rightarrow> string \<Rightarrow> string" where
  "pjoin dir name =
     (if dir = [] then name else if endsWith dir ''/'' then dir @ name else dir @ ''/'' @ name)"

definition dirname :: "string \<Rightarrow> string" where
  "dirname path =
     (case path of
        [] \<Rightarrow> ''.''
      | c # rest \<Rightarrow>
          (let hasRoot = (c = CHR ''/'');
               upto = dropWhile (\<lambda>x. x \<noteq> CHR ''/'') (dropWhile (\<lambda>x. x = CHR ''/'') (rev rest))
           in if upto = [] then (if hasRoot then ''/'' else ''.'')
              else if hasRoot \<and> length upto = 1 then ''//''
              else take (length upto) path))"

text \<open>What \<open>fs.readFileSync(file, "utf-8")\<close> gives: the text, the error \<open>ENOENT\<close>, or
  another error.\<close>

datatype fread = Data string | ENOENT | EOTHER

type_synonym filesystem = "string \<Rightarrow> fread"

datatype error = ReadError | TypeError | WriteError

datatype fsop = Mkdir string | WriteFile string string | Rename string string

fun applyOp :: "filesystem \<Rightarrow> fsop \<Rightarrow> filesystem" where
  "applyOp fs (Mkdir dir) = fs"
| "applyOp fs (WriteFile file text) = fs(file := Data text)"
| "applyOp fs (Rename old new) = (if old = new then fs else fs(new := fs old, old := ENOENT))"

text \<open>
  \<open>fs.mkdirSync\<close>, \<open>fs.writeFileSync\<close> and \<open>fs.renameSync\<close> either carry the call out or
  throw. Which of the two happens is decided by the operating system (a missing permission,
  a path component that is a file, a full disk): the parameter \<open>os\<close> tells, for the file
  system as it is, whether a call is carried out.
\<close>

type_synonym platform = "filesystem \<Rightarrow> fsop \<Rightarrow> bool"

definition fsCall :: "platform \<Rightarrow> filesystem \<Rightarrow> fsop \<Rightarrow> error + filesystem" where
  "fsCall os fs call = (if os fs call then Inr (applyOp fs call) else Inl WriteError)"

text \<open>\<open>os.homedir()\<close> and \<open>process.cwd()\<close>.\<close>

record env =
  homedir :: string
  cwd :: string

definition CONFIG_DIR :: "env \<Rightarrow> string" where
  "CONFIG_DIR e = pjoin (pjoin (homedir e) ''.config'') ''jumpseller''"

definition CREDENTIALS_FILE :: "env \<Rightarrow> string" where
  "CREDENTIALS_FILE e = pjoin (CONFIG_DIR e) ''credentials''"

definition GLOBAL_CURRENT_FILE :: "env \<Rightarrow> string" where
  "GLOBAL_CURRENT_FILE e = pjoin (CONFIG_DIR e) ''store''"

definition LOCAL_CURRENT_FILE :: string where
  "LOCAL_CURRENT_FILE = ''.jumpseller-store''"

definition readFileIfExists :: "filesystem \<Rightarrow> string \<Rightarrow> string \<Rightarrow> error + string" where
  "readFileIfExists fs file fallback =
     (case fs file of Data text \<Rightarrow> Inr text | ENOENT \<Rightarrow> Inr fallback | EOTHER \<Rightarrow> Inl ReadError)"

section \<open>The credential store\<close>

definition splitLines :: "string \<Rightarrow> string list" where
  "splitLines text = (if length text > 0 then split_nl text else [])"

text \<open>\<open>Array.prototype.findIndex\<close> gives \<open>-1\<close> when no element passes, and
  \<open>lines.splice(0, n)\<close> removes nothing when \<open>n\<close> is negative.\<close>

fun findIndex :: "('a \<Rightarrow> bool) \<Rightarrow> 'a list \<Rightarrow> int" where
  "findIndex P [] = - 1"
| "findIndex P (x # xs) =
     (if P x then 0 else (let i = findIndex P xs in if i < 0 then - 1 else i + 1))"

definition joinLines :: "string list \<Rightarrow> string" where
  "joinLines lines0 =
     (let lines = drop (nat (findIndex (\<lambda>line. line \<noteq> []) lines0)) lines0
      in if length lines > 0 then join_nl lines @ [CHR 0x0A] else [])"

definition canonicalLine :: "string \<Rightarrow> string" where
  "canonicalLine line = trim (takeWhile (\<lambda>c. c \<noteq> CHR ''#'') line)"

text \<open>A JavaScript value that is a string, \<open>false\<close> or \<open>undefined\<close>.\<close>

datatype jsval = Undefined | JFalse | Str string

fun truthy :: "jsval \<Rightarrow> bool" where
  "truthy (Str s) = (s \<noteq> [])"
| "truthy JFalse = False"
| "truthy Undefined = False"

record auth =
  credentialsText :: "string option"
  credentialsTextChanged :: bool
  globalDefault :: jsval
  scopeDefault :: jsval
  scopeFolder :: "string option"
  commandStore :: jsval

text \<open>The singleton as the module exports it: no field is set.\<close>

definition newAuth :: auth where
  "newAuth = \<lparr>credentialsText = None, credentialsTextChanged = False, globalDefault = Undefined,
     scopeDefault = Undefined, scopeFolder = None, commandStore = Undefined\<rparr>"

definition loadCredentialsFile :: "env \<Rightarrow> filesystem \<Rightarrow> auth \<Rightarrow> error + string \<times> auth" where
  "loadCredentialsFile e fs a =
     (case credentialsText a of
        Some text \<Rightarrow> Inr (text, a)
      | None \<Rightarrow>
          (case readFileIfExists fs (CREDENTIALS_FILE e) [] of
             Inl err \<Rightarrow> Inl err
           | Inr text \<Rightarrow> Inr (trim text, a\<lparr>credentialsText := Some (trim text)\<rparr>)))"

definition loadGlobalDefault :: "env \<Rightarrow> filesystem \<Rightarrow> auth \<Rightarrow> error + jsval \<times> auth" where
  "loadGlobalDefault e fs a =
     (case globalDefault a of
        Undefined \<Rightarrow>
          (case readFileIfExists fs (GLOBAL_CURRENT_FILE e) [] of
             Inl err \<Rightarrow> Inl err
           | Inr text \<Rightarrow>
               (let v = (if trim text \<noteq> [] then Str (trim text) else JFalse)
                in Inr (v, a\<lparr>globalDefault := v\<rparr>)))
      | v \<Rightarrow> Inr (v, a))"

text \<open>The temporary file's random suffix, \<open>Math.random().toString(36).slice(2)\<close>, is the
  parameter \<open>rnd\<close>. The three calls are made in the order of the source, and the text is
  read (a \<open>TypeError\<close> when it is \<open>undefined\<close>) after the directory is made. The result
  holds the calls carried out and the file system after them, also when a call throws.\<close>

definition writeCredentialsFile ::
  "env \<Rightarrow> platform \<Rightarrow> string \<Rightarrow> filesystem \<Rightarrow> auth \<Rightarrow>
   error \<times> fsop list \<times> filesystem + fsop list \<times> filesystem" where
  "writeCredentialsFile e os rnd fs a =
     (let tmp = CREDENTIALS_FILE e @ ''.tmp.'' @ rnd
      in case fsCall os fs (Mkdir (CONFIG_DIR e)) of
           Inl err \<Rightarrow> Inl (err, [], fs)
         | Inr fs1 \<Rightarrow>
             (case credentialsText a of
                None \<Rightarrow> Inl (TypeError, [Mkdir (CONFIG_DIR e)], fs1)
              | Some text \<Rightarrow>
                  (case fsCall os fs1 (WriteFile tmp (trimStart text)) of
                     Inl err \<Rightarrow> Inl (err, [Mkdir (CONFIG_DIR e)], fs1)
                   | Inr fs2 \<Rightarrow>
                       (case fsCall os fs2 (Rename tmp (CREDENTIALS_FILE e)) of
                          Inl err \<Rightarrow>
                            Inl (err, [Mkdir (CONFIG_DIR e), WriteFile tmp (trimStart text)], fs2)
                        | Inr fs3 \<Rightarrow>
                            Inr ([Mkdir (CONFIG_DIR e), WriteFile tmp (trimStart text),
                                  Rename tmp (CREDENTIALS_FILE e)], fs3)))))"

subsection \<open>The walk for the local default\<close>

text \<open>The loop of \<open>#findScopeFolder\<close> ends because \<open>path.dirname\<close> gives a smaller path
  whenever it gives a different one.\<close>

definition pathMeasure :: "string \<Rightarrow> nat" where
  "pathMeasure p = (if p = ''.'' then 0 else length p + 2)"

text \<open>The \<open>while\<close> loop of \<open>#findScopeFolder\<close>: \<open>Some (content, dir)\<close> is the \<open>return\<close>
  inside the loop, \<open>None\<close> is leaving the loop (by its condition or by \<open>break\<close>), and a read
  error other than \<open>ENOENT\<close> is thrown.\<close>

function findScopeLoop ::
  "filesystem \<Rightarrow> string \<Rightarrow> string \<Rightarrow> error + (string \<times> string) option" where
  "findScopeLoop fs home fingerDir =
     (if startsWith fingerDir home \<or> fingerDir \<noteq> ''/'' then
        (case fs (pjoin fingerDir LOCAL_CURRENT_FILE) of
           Data content \<Rightarrow> Inr (Some (content, fingerDir))
         | EOTHER \<Rightarrow> Inl ReadError
         | ENOENT \<Rightarrow>
             (let parentDir = dirname fingerDir
              in if parentDir = fingerDir then Inr None
                 else findScopeLoop fs home parentDir))
      else Inr None)"
  by pat_completeness auto
termination
proof -
  have smaller: "pathMeasure (dirname p) < pathMeasure p" if ne: "dirname p \<noteq> p" for p
  proof (cases p)
    case Nil
    then show ?thesis by (simp add: dirname_def pathMeasure_def)
  next
    case (Cons c rest)
    define ys where "ys = dropWhile (\<lambda>x. x = CHR ''/'') (rev rest)"
    define upto where "upto = dropWhile (\<lambda>x. x \<noteq> CHR ''/'') ys"
    have le: "length ys \<le> length rest"
      unfolding ys_def using length_dropWhile_le[of _ "rev rest"] by simp
    have lt: "length upto < length rest" if "upto \<noteq> []"
    proof -
      from that have "ys \<noteq> []" by (auto simp: upto_def)
      then obtain y ys' where y: "ys = y # ys'" by (cases ys) auto
      have "y \<noteq> CHR ''/''"
        using hd_dropWhile[of "\<lambda>x. x = CHR ''/''" "rev rest"] y unfolding ys_def by auto
      then have "upto = dropWhile (\<lambda>x. x \<noteq> CHR ''/'') ys'" by (simp add: upto_def y)
      then have "length upto \<le> length ys'" by (simp add: length_dropWhile_le)
      with y le show ?thesis by simp
    qed
    have d: "dirname p = (if upto = [] then (if c = CHR ''/'' then ''/'' else ''.'')
                else if c = CHR ''/'' \<and> length upto = 1 then ''//''
                else take (length upto) p)"
      unfolding dirname_def Cons upto_def ys_def by (simp add: Let_def)
    show ?thesis
    proof (cases "upto = []")
      case True
      show ?thesis
      proof (cases "c = CHR ''/''")
        case True
        with \<open>upto = []\<close> d have "dirname p = ''/''" by simp
        moreover from this ne Cons True have "rest \<noteq> []" by auto
        ultimately show ?thesis using Cons by (simp add: pathMeasure_def)
      next
        case False
        with \<open>upto = []\<close> d have "dirname p = ''.''" by simp
        then show ?thesis using ne by (simp add: pathMeasure_def)
      qed
    next
      case False
      from lt[OF False] have l: "length upto < length rest" .
      show ?thesis
      proof (cases "c = CHR ''/'' \<and> length upto = 1")
        case True
        with False d have "dirname p = ''//''" by simp
        then show ?thesis using l True Cons by (simp add: pathMeasure_def)
      next
        case F2: False
        with False d have dp: "dirname p = take (length upto) p" by auto
        have "length (take (length upto) p) = length upto" using l Cons by simp
        moreover have "p \<noteq> ''.''" using l Cons by auto
        ultimately show ?thesis using l Cons unfolding dp pathMeasure_def by simp
      qed
    qed
  qed
  show ?thesis
    by (relation "measure (\<lambda>(fs, home, fingerDir). pathMeasure fingerDir)")
       (auto simp: smaller)
qed

definition findScopeFolder :: "env \<Rightarrow> filesystem \<Rightarrow> auth \<Rightarrow> error + string \<times> auth" where
  "findScopeFolder e fs a =
     (case findScopeLoop fs (homedir e) (cwd e) of
        Inl err \<Rightarrow> Inl err
      | Inr (Some (content, fingerDir)) \<Rightarrow>
          Inr (fingerDir, a\<lparr>scopeDefault := Str content, scopeFolder := Some fingerDir\<rparr>)
      | Inr None \<Rightarrow>
          Inr (cwd e, a\<lparr>scopeDefault := JFalse, scopeFolder := Some (cwd e)\<rparr>))"

definition getGlobalDefault :: "env \<Rightarrow> filesystem \<Rightarrow> auth \<Rightarrow> error + jsval \<times> auth" where
  "getGlobalDefault e fs a =
     (case loadGlobalDefault e fs a of
        Inl err \<Rightarrow> Inl err
      | Inr (_, a') \<Rightarrow> Inr (globalDefault a', a'))"

definition getLocalDefault :: "env \<Rightarrow> filesystem \<Rightarrow> auth \<Rightarrow> error + jsval \<times> auth" where
  "getLocalDefault e fs a =
     (case findScopeFolder e fs a of
        Inl err \<Rightarrow> Inl err
      | Inr (_, a') \<Rightarrow> Inr (scopeDefault a', a'))"

text \<open>\<open>x || y\<close> gives \<open>x\<close> when it is truthy and evaluates \<open>y\<close> only otherwise.\<close>

definition currentStore :: "env \<Rightarrow> filesystem \<Rightarrow> auth \<Rightarrow> error + jsval \<times> auth" where
  "currentStore e fs a =
     (if truthy (commandStore a) then Inr (commandStore a, a)
      else (case getLocalDefault e fs a of
              Inl err \<Rightarrow> Inl err
            | Inr (localDefault, a') \<Rightarrow>
                if truthy localDefault then Inr (localDefault, a')
                else getGlobalDefault e fs a'))"

definition setCommandStore :: "string \<Rightarrow> auth \<Rightarrow> auth" where
  "setCommandStore domain a = a\<lparr>commandStore := Str domain\<rparr>"

subsection \<open>Credentials\<close>

text \<open>\<open>flush\<close> gives the object, the file-system calls carried out and the file system after
  them; when a call throws, the error stands in place of the object.\<close>

definition flush ::
  "env \<Rightarrow> platform \<Rightarrow> string \<Rightarrow> filesystem \<Rightarrow> auth \<Rightarrow>
   error \<times> fsop list \<times> filesystem + auth \<times> fsop list \<times> filesystem" where
  "flush e os rnd fs a =
     (if credentialsTextChanged a then
        (case writeCredentialsFile e os rnd fs a of
           Inl failure \<Rightarrow> Inl failure
         | Inr (calls, fs') \<Rightarrow> Inr (a, calls, fs'))
      else Inr (a, [], fs))"

text \<open>The array destructuring \<open>const [domain, credentials] = tokens\<close>: a missing element is
  \<open>undefined\<close>.\<close>

fun firstOf :: "'a list \<Rightarrow> 'a option" where
  "firstOf [] = None"
| "firstOf (x # xs) = Some x"

fun secondOf :: "'a list \<Rightarrow> 'a option" where
  "secondOf (x # y # xs) = Some y"
| "secondOf xs = None"

text \<open>\<open>RegExp.prototype.test\<close> converts its argument to a string.\<close>

definition toString :: "string option \<Rightarrow> string" where
  "toString v = (case v of None \<Rightarrow> ''undefined'' | Some s \<Rightarrow> s)"

datatype warning = InvalidDomain string | InvalidCredentials string | DuplicateDomain string

text \<open>The \<open>Map\<close> of \<open>listCredentials\<close> as an association list in insertion order (a key is
  only ever set when absent), with the \<open>console.error\<close> lines beside it. The callback of
  \<open>forEach\<close> throws a \<open>TypeError\<close> when \<open>domain\<close> is \<open>undefined\<close>.\<close>

type_synonym domains = "(string \<times> string option) list"

definition listStep :: "domains \<times> warning list \<Rightarrow> string \<Rightarrow> error + domains \<times> warning list" where
  "listStep acc line =
     (let tokens = split_ws (canonicalLine line);
          credentials = secondOf tokens
      in case firstOf tokens of
           None \<Rightarrow> Inl TypeError
         | Some domain \<Rightarrow>
             (let (okDomain, correctedDomain) = parseStoreReference domain
              in if \<not> okDomain \<or> domain \<noteq> correctedDomain then
                   Inr (fst acc, snd acc @ [InvalidDomain domain])
                 else if \<not> validCredentials (toString credentials) then
                   Inr (fst acc, snd acc @ [InvalidCredentials domain])
                 else if map_of (fst acc) domain \<noteq> None then
                   Inr (fst acc, snd acc @ [DuplicateDomain domain])
                 else Inr (fst acc @ [(domain, credentials)], snd acc)))"

fun forEachLine ::
  "domains \<times> warning list \<Rightarrow> string list \<Rightarrow> error + domains \<times> warning list" where
  "forEachLine acc [] = Inr acc"
| "forEachLine acc (line # lines) =
     (case listStep acc line of Inl err \<Rightarrow> Inl err | Inr acc' \<Rightarrow> forEachLine acc' lines)"

definition listCredentials ::
  "env \<Rightarrow> filesystem \<Rightarrow> auth \<Rightarrow> error + (domains \<times> warning list) \<times> auth" where
  "listCredentials e fs a =
     (case loadCredentialsFile e fs a of
        Inl err \<Rightarrow> Inl err
      | Inr (content, a') \<Rightarrow>
          (let lines = filter (\<lambda>line. canonicalLine line \<noteq> []) (splitLines content)
           in case forEachLine ([], []) lines of
                Inl err \<Rightarrow> Inl err
              | Inr r \<Rightarrow> Inr (r, a')))"

definition lineDomain :: "string \<Rightarrow> string option" where
  "lineDomain line = firstOf (split_ws (canonicalLine line))"

definition addCredentials ::
  "env \<Rightarrow> filesystem \<Rightarrow> string \<Rightarrow> string \<Rightarrow> auth \<Rightarrow> error + auth" where
  "addCredentials e fs domain credentials a =
     (case loadCredentialsFile e fs a of
        Inl err \<Rightarrow> Inl err
      | Inr (content, a') \<Rightarrow>
          (let missing = (\<forall>line \<in> set (splitLines content). Some domain \<noteq> lineDomain line);
               lines = map (\<lambda>line. if Some domain \<noteq> lineDomain line then line
                                    else domain @ '' '' @ credentials) (splitLines content);
               lines' = (if missing then lines @ [domain @ '' '' @ credentials] else lines)
           in Inr (a'\<lparr>credentialsText := Some (joinLines lines'),
                      credentialsTextChanged := True\<rparr>)))"

definition removeCredentials :: "env \<Rightarrow> filesystem \<Rightarrow> string \<Rightarrow> auth \<Rightarrow> error + auth" where
  "removeCredentials e fs domain a =
     (case loadCredentialsFile e fs a of
        Inl err \<Rightarrow> Inl err
      | Inr (content, a') \<Rightarrow>
          (let lines = filter (\<lambda>line. Some domain \<noteq> lineDomain line) (splitLines content)
           in Inr (a'\<lparr>credentialsText := Some (joinLines lines),
                      credentialsTextChanged := True\<rparr>)))"

section \<open>The watch session\<close>

text \<open>\<open>GitObserver\<close>: the branch and the stash hash pinned at the start, and what the
  repository shows when it is asked again.\<close>

record gitObserver =
  folder :: string
  branch :: string
  stash :: string

record gitState =
  indexLocked :: bool
  readBranch :: string
  readStash :: string

definition check :: "gitObserver \<Rightarrow> gitState \<Rightarrow> bool" where
  "check g st = (indexLocked st \<or> branch g \<noteq> readBranch st \<or> stash g \<noteq> readStash st)"

datatype request = Write string string | Unlink string

datatype logline = GitDetected string | LogAction string string

record session = watcher +
  gitObserver :: "gitObserver option"
  requests :: "request list"
  stopCalled :: bool
  logged :: "logline list"

definition checkGitRepository :: "session \<Rightarrow> gitState \<Rightarrow> bool" where
  "checkGitRepository s st = (case gitObserver s of None \<Rightarrow> False | Some g \<Rightarrow> check g st)"

text \<open>The listener that \<open>watch\<close> registers for \<open>"all"\<close>. \<open>path.relative\<close> and
  \<open>micromatch.isMatch\<close> are library functions and parameters; \<open>write\<close> and \<open>unlink\<close> start a
  remote request, which is recorded in \<open>requests\<close>; \<open>stop()\<close> resolves the promise that
  \<open>watch\<close> awaits.\<close>

definition onAll ::
  "(string \<Rightarrow> string list \<Rightarrow> bool) \<Rightarrow> (string \<Rightarrow> string \<Rightarrow> string) \<Rightarrow> filesystem \<Rightarrow> gitState \<Rightarrow>
   string \<Rightarrow> session \<Rightarrow> string \<Rightarrow> string \<Rightarrow> error + session" where
  "onAll isMatch relative fs st watched s event fullpath =
     (let relativePath = relative watched fullpath;
          action = (if isKnownPath isMatch s relativePath then event else ''SKIP'');
          s1 = (if checkGitRepository s st
                then s\<lparr>logged := logged s @ [GitDetected (case gitObserver s of None \<Rightarrow> [] | Some g \<Rightarrow> folder g)],
                       stopCalled := True\<rparr>
                else s)
      in if action = ''change'' \<or> action = ''add'' then
           (case fs fullpath of
              Data content \<Rightarrow>
                Inr (s1\<lparr>requests := requests s1 @ [Write relativePath content],
                        logged := logged s1 @ [LogAction ''WRITE'' relativePath]\<rparr>)
            | _ \<Rightarrow> Inl ReadError)
         else if action = ''unlink'' then
           Inr (s1\<lparr>requests := requests s1 @ [Unlink relativePath],
                   logged := logged s1 @ [LogAction ''DELETE'' relativePath]\<rparr>)
         else Inr (s1\<lparr>logged := logged s1 @ [LogAction action relativePath]\<rparr>))"

section \<open>Vocabulary for the properties\<close>

text \<open>The stripping of a store reference in the words of the specification: one trailing
  slash is removed, then a leading marker when the value starts with it.\<close>

definition spec_stripTrailing :: "string \<Rightarrow> string" where
  "spec_stripTrailing s = (if s \<noteq> [] \<and> last s = CHR ''/'' then butlast s else s)"

definition spec_stripLeading :: "string \<Rightarrow> string \<Rightarrow> string" where
  "spec_stripLeading marker s =
     (if take (length marker) s = marker then drop (length marker) s else s)"

text \<open>The canonical lines of a text that are not empty: what \<open>listCredentials\<close> reads.\<close>

definition canonLines :: "string \<Rightarrow> string list" where
  "canonLines content = filter (\<lambda>l. l \<noteq> []) (map canonicalLine (splitLines content))"

text \<open>
  The second token of a line, and what \<open>listCredentials\<close> requires of a line: its domain is
  a store reference in canonical form and its credentials have the right format.
\<close>

definition lineCredentials :: "string \<Rightarrow> string option" where
  "lineCredentials line = secondOf (split_ws (canonicalLine line))"

definition passesChecks :: "string \<Rightarrow> bool" where
  "passesChecks line =
     (case lineDomain line of
        None \<Rightarrow> False
      | Some d \<Rightarrow>
          parseStoreReference d = (True, d) \<and> validCredentials (toString (lineCredentials line)))"

text \<open>The entry for a domain, read off the lines: the credentials of the first line for
  that domain that passes both checks.\<close>

fun spec_entry :: "string \<Rightarrow> string list \<Rightarrow> string option option" where
  "spec_entry d [] = None"
| "spec_entry d (line # lines) =
     (if passesChecks line \<and> lineDomain line = Some d then Some (lineCredentials line)
      else spec_entry d lines)"

text \<open>The warning a line deserves, given the lines before it.\<close>

definition spec_warning :: "string list \<Rightarrow> string \<Rightarrow> warning option" where
  "spec_warning earlier line =
     (case lineDomain line of
        None \<Rightarrow> None
      | Some d \<Rightarrow>
          if parseStoreReference d \<noteq> (True, d) then Some (InvalidDomain d)
          else if \<not> validCredentials (toString (lineCredentials line)) then
            Some (InvalidCredentials d)
          else if list_ex (\<lambda>l. passesChecks l \<and> lineDomain l = Some d) earlier then
            Some (DuplicateDomain d)
          else None)"

fun spec_warnings :: "string list \<Rightarrow> string list \<Rightarrow> warning list" where
  "spec_warnings earlier [] = []"
| "spec_warnings earlier (line # lines) =
     (case spec_warning earlier line of None \<Rightarrow> [] | Some w \<Rightarrow> [w]) @
     spec_warnings (earlier @ [line]) lines"

text \<open>A token that a line can hold as it is: not empty, without white space or \<open>#\<close>.\<close>

definition cleanToken :: "string \<Rightarrow> bool" where
  "cleanToken s = (s \<noteq> [] \<and> (\<forall>ch \<in> set s. \<not> isSpace ch \<and> ch \<noteq> CHR ''#''))"

section \<open>Path policy: first match wins\<close>

lemma startsWith_iff: "startsWith s p \<longleftrightarrow> (\<exists>r. s = p @ r)"
  unfolding startsWith_def
  by (metis append_eq_conv_conj append_take_drop_id)

text \<open>
  Claim C4. \<open>isKnownPath\<close> applies its rules in order and the first that matches decides:
  a path that matches an allow glob is syncable, also when it matches a block glob; otherwise
  a path that matches a block glob is not; otherwise a path under \<open>partials/\<close>,
  \<open>components/\<close> or \<open>templates/\<close> is syncable; otherwise a path under \<open>assets/library/\<close> is
  not; otherwise a path under \<open>assets/\<close> is syncable; otherwise a path under \<open>config/\<close> is
  syncable; every other path is not syncable.
\<close>

theorem isKnownPath_first_match_wins:
  "(isMatch p (allowlist w) \<longrightarrow> isKnownPath isMatch w p) \<and>
   (\<not> isMatch p (allowlist w) \<and> isMatch p (blocklist w) \<longrightarrow> \<not> isKnownPath isMatch w p) \<and>
   (\<not> isMatch p (allowlist w) \<and> \<not> isMatch p (blocklist w) \<and>
      (startsWith p ''partials/'' \<or> startsWith p ''components/'' \<or> startsWith p ''templates/'')
      \<longrightarrow> isKnownPath isMatch w p) \<and>
   (\<not> isMatch p (allowlist w) \<and> \<not> isMatch p (blocklist w) \<and> startsWith p ''assets/library/''
      \<longrightarrow> \<not> isKnownPath isMatch w p) \<and>
   (\<not> isMatch p (allowlist w) \<and> \<not> isMatch p (blocklist w) \<and> startsWith p ''assets/'' \<and>
      \<not> startsWith p ''assets/library/'' \<longrightarrow> isKnownPath isMatch w p) \<and>
   (\<not> isMatch p (allowlist w) \<and> \<not> isMatch p (blocklist w) \<and> startsWith p ''config/''
      \<longrightarrow> isKnownPath isMatch w p) \<and>
   (\<not> isMatch p (allowlist w) \<and> \<not> isMatch p (blocklist w) \<and>
      \<not> startsWith p ''partials/'' \<and> \<not> startsWith p ''components/'' \<and>
      \<not> startsWith p ''templates/'' \<and> \<not> startsWith p ''assets/'' \<and> \<not> startsWith p ''config/''
      \<longrightarrow> \<not> isKnownPath isMatch w p)"
proof -
  have lib: "startsWith p ''assets/library/'' \<Longrightarrow> startsWith p ''assets/''"
    by (auto simp: startsWith_iff)
  have a: "startsWith p ''assets/'' \<Longrightarrow>
      \<not> startsWith p ''partials/'' \<and> \<not> startsWith p ''components/'' \<and>
      \<not> startsWith p ''templates/'' \<and> \<not> startsWith p ''config/''"
    by (auto simp: startsWith_iff)
  show ?thesis
    unfolding isKnownPath_def using lib a by auto
qed


theorem isKnownPath_first_match_wins_witness:
  "(let isMatch = (\<lambda>p pats. p \<in> set pats);
        both = \<lparr>allowlist = [''components/foo.json''], blocklist = [''components/foo.json'']\<rparr>;
        blocked = \<lparr>allowlist = [], blocklist = [''components/foo.json'']\<rparr>;
        none = \<lparr>allowlist = [], blocklist = []\<rparr>
    in isMatch ''components/foo.json'' (allowlist both) \<and>
       isMatch ''components/foo.json'' (blocklist both) \<and>
       isKnownPath isMatch both ''components/foo.json'' \<and>
       \<not> isMatch ''components/foo.json'' (allowlist blocked) \<and>
       isMatch ''components/foo.json'' (blocklist blocked) \<and>
       \<not> isKnownPath isMatch blocked ''components/foo.json'' \<and>
       isKnownPath isMatch none ''components/foo.json'' \<and>
       startsWith ''templates/header.json'' ''templates/'' \<and>
       isKnownPath isMatch none ''templates/header.json'' \<and>
       startsWith ''assets/library/vendor.js'' ''assets/library/'' \<and>
       \<not> isKnownPath isMatch none ''assets/library/vendor.js'' \<and>
       startsWith ''assets/app.css'' ''assets/'' \<and>
       \<not> startsWith ''assets/app.css'' ''assets/library/'' \<and>
       isKnownPath isMatch none ''assets/app.css'' \<and>
       startsWith ''config/settings.json'' ''config/'' \<and>
       isKnownPath isMatch none ''config/settings.json'' \<and>
       \<not> isKnownPath isMatch none ''README.md'')"
  using
    isKnownPath_first_match_wins [of "\<lambda>p pats. p \<in> set pats" "''components/foo.json''"
      "\<lparr>allowlist = [''components/foo.json''], blocklist = [''components/foo.json'']\<rparr>"]
    isKnownPath_first_match_wins [of "\<lambda>p pats. p \<in> set pats" "''components/foo.json''"
      "\<lparr>allowlist = [], blocklist = [''components/foo.json'']\<rparr>"]
    isKnownPath_first_match_wins [of "\<lambda>p pats. p \<in> set pats" "''components/foo.json''"
      "\<lparr>allowlist = [], blocklist = []\<rparr>"]
    isKnownPath_first_match_wins [of "\<lambda>p pats. p \<in> set pats" "''templates/header.json''"
      "\<lparr>allowlist = [], blocklist = []\<rparr>"]
    isKnownPath_first_match_wins [of "\<lambda>p pats. p \<in> set pats" "''assets/library/vendor.js''"
      "\<lparr>allowlist = [], blocklist = []\<rparr>"]
    isKnownPath_first_match_wins [of "\<lambda>p pats. p \<in> set pats" "''assets/app.css''"
      "\<lparr>allowlist = [], blocklist = []\<rparr>"]
    isKnownPath_first_match_wins [of "\<lambda>p pats. p \<in> set pats" "''config/settings.json''"
      "\<lparr>allowlist = [], blocklist = []\<rparr>"]
    isKnownPath_first_match_wins [of "\<lambda>p pats. p \<in> set pats" "''README.md''"
      "\<lparr>allowlist = [], blocklist = []\<rparr>"]
  by (simp add: startsWith_def)

section \<open>Store references\<close>

lemma endsWith_iff: "endsWith s p \<longleftrightarrow> (\<exists>r. s = r @ p)"
proof
  assume "endsWith s p"
  then have "s = take (length s - length p) s @ p"
    unfolding endsWith_def by (metis append_take_drop_id)
  then show "\<exists>r. s = r @ p" ..
next
  assume "\<exists>r. s = r @ p"
  then show "endsWith s p" by (auto simp: endsWith_def)
qed

lemma matchesLabelSuffix_iff:
  "matchesLabelSuffix suffix s \<longleftrightarrow> (\<exists>L. matchesLabel L \<and> s = L @ suffix)"
proof
  assume m: "matchesLabelSuffix suffix s"
  then have "endsWith s suffix" by (simp add: matchesLabelSuffix_def)
  then have "s = take (length s - length suffix) s @ suffix"
    unfolding endsWith_def by (metis append_take_drop_id)
  with m show "\<exists>L. matchesLabel L \<and> s = L @ suffix"
    unfolding matchesLabelSuffix_def by blast
next
  assume "\<exists>L. matchesLabel L \<and> s = L @ suffix"
  then show "matchesLabelSuffix suffix s"
    by (auto simp: matchesLabelSuffix_def endsWith_def)
qed

lemma labelChar_not_slash: "labelChar c \<Longrightarrow> c \<noteq> CHR ''/'' \<and> c \<noteq> CHR ''.''"
  by (auto simp: labelChar_def)

lemma strippedReference_no_slash:
  assumes "CHR ''/'' \<notin> set s"
  shows "strippedReference s = s"
proof -
  have e: "\<not> endsWith s ''/''" using assms by (auto simp: endsWith_iff)
  have p: "\<not> startsWith s ''https://''" "\<not> startsWith s ''http://''" "\<not> startsWith s ''//''"
    using assms by (auto simp: startsWith_iff)
  show ?thesis unfolding strippedReference_def using e p by simp
qed

lemma parse_label:
  assumes "matchesLabel L" "L \<noteq> ''test''"
  shows "parseStoreReference L = (True, L @ ''.jumpseller.com'')"
proof -
  have ns: "CHR ''/'' \<notin> set L" and nd: "CHR ''.'' \<notin> set L"
    using assms(1) labelChar_not_slash by (auto simp: matchesLabel_def list_all_iff)
  have s: "strippedReference L = L" using ns by (rule strippedReference_no_slash)
  have "\<not> matchesLabelSuffix suffix L" if "CHR ''.'' \<in> set suffix" for suffix
    using nd that by (auto simp: matchesLabelSuffix_iff)
  then have "\<not> matchesLabelSuffix ''.jumpseller.com'' L" "\<not> matchesLabelSuffix ''.localhost'' L"
    by simp_all
  then show ?thesis using assms s by (simp add: parseStoreReference_def)
qed

lemma parse_domain:
  assumes "matchesLabel L"
  shows "parseStoreReference (L @ ''.jumpseller.com'') = (True, L @ ''.jumpseller.com'')"
    and "parseStoreReference (L @ ''.localhost'') = (True, L @ ''.localhost'')"
proof -
  have ns: "CHR ''/'' \<notin> set L"
    using assms labelChar_not_slash by (auto simp: matchesLabel_def list_all_iff)
  have s: "strippedReference (L @ ''.jumpseller.com'') = L @ ''.jumpseller.com''"
    "strippedReference (L @ ''.localhost'') = L @ ''.localhost''"
    using ns by (simp_all add: strippedReference_no_slash)
  have m: "matchesLabelSuffix ''.jumpseller.com'' (L @ ''.jumpseller.com'')"
    "matchesLabelSuffix ''.localhost'' (L @ ''.localhost'')"
    using assms unfolding matchesLabelSuffix_iff by blast+
  have t: "L @ ''.jumpseller.com'' \<noteq> ''test''" "L @ ''.localhost'' \<noteq> ''test''"
    by (auto simp: append_eq_Cons_conv)
  show "parseStoreReference (L @ ''.jumpseller.com'') = (True, L @ ''.jumpseller.com'')"
    using s m t by (simp add: parseStoreReference_def)
  show "parseStoreReference (L @ ''.localhost'') = (True, L @ ''.localhost'')"
    using s m t by (simp add: parseStoreReference_def Let_def)
qed

lemma parse_reject:
  assumes "c \<in> set (strippedReference s)" "\<not> labelChar c" "c \<noteq> CHR ''.''"
  shows "parseStoreReference s = (False, strippedReference s)"
proof -
  let ?t = "strippedReference s"
  have 1: "?t \<noteq> ''test''" using assms by (auto simp: labelChar_def)
  have 2: "\<not> matchesLabel ?t" using assms by (auto simp: matchesLabel_def list_all_iff)
  have "\<not> matchesLabelSuffix suffix ?t" if "list_all (\<lambda>x. labelChar x \<or> x = CHR ''.'') suffix" for suffix
  proof
    assume "matchesLabelSuffix suffix ?t"
    then obtain L where "matchesLabel L" "?t = L @ suffix" unfolding matchesLabelSuffix_iff by blast
    with assms(1) have "c \<in> set L \<or> c \<in> set suffix" by auto
    with that \<open>matchesLabel L\<close> assms(2,3) show False
      by (auto simp: matchesLabel_def list_all_iff)
  qed
  then have 3: "\<not> matchesLabelSuffix ''.jumpseller.com'' ?t" "\<not> matchesLabelSuffix ''.localhost'' ?t"
    by (simp_all add: labelChar_def)
  show ?thesis using 1 2 3 by (simp add: parseStoreReference_def)
qed

lemma strippedReference_wrapped:
  assumes "CHR ''/'' \<notin> set s"
  shows "strippedReference (''https://'' @ s @ ''/'') = s"
    and "strippedReference (''http://'' @ s @ ''/'') = s"
    and "strippedReference (''//'' @ s @ ''/'') = s"
proof -
  have p: "\<not> startsWith s ''https://''" "\<not> startsWith s ''http://''" "\<not> startsWith s ''//''"
    using assms by (auto simp: startsWith_iff)
  have e: "endsWith (q @ s @ ''/'') ''/''" for q by (auto simp: endsWith_iff)
  have b: "butlast (q @ s @ ''/'') = q @ s" for q
    by (simp add: butlast_append)
  show "strippedReference (''https://'' @ s @ ''/'') = s"
    unfolding strippedReference_def Let_def using e[of "''https://''"] b[of "''https://''"] p
    by (simp add: startsWith_def)
  show "strippedReference (''http://'' @ s @ ''/'') = s"
    unfolding strippedReference_def Let_def using e[of "''http://''"] b[of "''http://''"] p
    by (simp add: startsWith_def)
  show "strippedReference (''//'' @ s @ ''/'') = s"
    unfolding strippedReference_def Let_def using e[of "''//''"] b[of "''//''"] p
    by (simp add: startsWith_def)
qed

lemma parse_on_stripped:
  "parseStoreReference s =
     (if strippedReference s = ''test'' then (True, ''test.localhost'')
      else if \<exists>L. matchesLabel L \<and>
                (strippedReference s = L @ ''.jumpseller.com'' \<or>
                 strippedReference s = L @ ''.localhost'')
           then (True, strippedReference s)
      else if matchesLabel (strippedReference s)
           then (True, strippedReference s @ ''.jumpseller.com'')
      else (False, strippedReference s))"
proof -
  have "(\<exists>L. matchesLabel L \<and> (t = L @ a \<or> t = L @ b)) =
        (matchesLabelSuffix a t \<or> matchesLabelSuffix b t)" for t a b
    by (auto simp: matchesLabelSuffix_iff)
  then show ?thesis by (simp add: parseStoreReference_def Let_def)
qed

lemma stripped_in_words:
  "strippedReference s =
     spec_stripLeading ''//''
       (spec_stripLeading ''http://'' (spec_stripLeading ''https://'' (spec_stripTrailing s)))"
proof -
  have "endsWith s ''/'' = (s \<noteq> [] \<and> last s = CHR ''/'')"
    by (cases s rule: rev_cases) (auto simp: endsWith_iff)
  then have st: "spec_stripTrailing s = (if endsWith s ''/'' then butlast s else s)"
    by (simp add: spec_stripTrailing_def)
  have sl: "spec_stripLeading marker x = (if startsWith x marker then drop (length marker) x else x)"
    for marker x
    by (simp add: spec_stripLeading_def startsWith_def)
  have len: "length ''https://'' = 8" "length ''http://'' = 7" "length ''//'' = 2"
    by simp_all
  show ?thesis
    unfolding strippedReference_def Let_def st sl len by (rule refl)
qed

text \<open>
  Claim C3, as stated, fails: a rejected input comes back stripped, not as it was typed.
\<close>

theorem parseStoreReference_counterexample:
  "parseStoreReference ''https://My Shop/'' = (False, ''My Shop'') \<and>
   parseStoreReference ''https://My Shop/'' \<noteq> (False, ''https://My Shop/'')"
  by (simp add: parseStoreReference_def strippedReference_def matchesLabel_def
      matchesLabelSuffix_def labelChar_def endsWith_def startsWith_def)

text \<open>
  Claim C3, amended. For every input, \<open>parseStoreReference\<close> strips one trailing \<open>/\<close>, then
  a leading \<open>https://\<close>, then \<open>http://\<close>, then \<open>//\<close>, and decides on the stripped value:
  \<open>test\<close> gives \<open>(true, "test.localhost")\<close>; a value of the form \<open>L + ".jumpseller.com"\<close> or
  \<open>L + ".localhost"\<close>, with \<open>L\<close> a label of \<open>[a-z0-9_-]+\<close>, is returned as it is; another bare
  label \<open>L\<close> gives \<open>(true, L + ".jumpseller.com")\<close>; and every other value, so every value
  with an uppercase letter, a space or another symbol outside \<open>[a-z0-9_.-]\<close>, gives \<open>false\<close>
  together with the stripped value. In particular, on inputs that need no stripping, a
  bare label other than \<open>test\<close> gets the production suffix and the two domain forms are
  fixed points.
\<close>

theorem parseStoreReference_amended:
  "(\<forall>s. strippedReference s =
        spec_stripLeading ''//''
          (spec_stripLeading ''http://'' (spec_stripLeading ''https://'' (spec_stripTrailing s)))) \<and>
   (\<forall>s. parseStoreReference s =
        (if strippedReference s = ''test'' then (True, ''test.localhost'')
         else if \<exists>L. matchesLabel L \<and>
                   (strippedReference s = L @ ''.jumpseller.com'' \<or>
                    strippedReference s = L @ ''.localhost'')
              then (True, strippedReference s)
         else if matchesLabel (strippedReference s)
              then (True, strippedReference s @ ''.jumpseller.com'')
         else (False, strippedReference s))) \<and>
   parseStoreReference ''test'' = (True, ''test.localhost'') \<and>
   (\<forall>L. matchesLabel L \<and> L \<noteq> ''test'' \<longrightarrow>
        parseStoreReference L = (True, L @ ''.jumpseller.com'')) \<and>
   (\<forall>L. matchesLabel L \<longrightarrow>
        parseStoreReference (L @ ''.jumpseller.com'') = (True, L @ ''.jumpseller.com'') \<and>
        parseStoreReference (L @ ''.localhost'') = (True, L @ ''.localhost'')) \<and>
   (\<forall>s. (\<exists>c \<in> set (strippedReference s). \<not> labelChar c \<and> c \<noteq> CHR ''.'') \<longrightarrow>
        parseStoreReference s = (False, strippedReference s)) \<and>
   (\<forall>s. CHR ''/'' \<notin> set s \<longrightarrow>
        strippedReference s = s \<and>
        strippedReference (s @ ''/'') = s \<and>
        strippedReference (''https://'' @ s @ ''/'') = s \<and>
        strippedReference (''http://'' @ s @ ''/'') = s \<and>
        strippedReference (''//'' @ s @ ''/'') = s) \<and>
   strippedReference ''https://http:////shop/'' = ''shop'' \<and>
   strippedReference ''http://https://shop//'' = ''https://shop/''"
proof -
  have t: "parseStoreReference ''test'' = (True, ''test.localhost'')"
    by (simp add: parseStoreReference_def strippedReference_def endsWith_def startsWith_def)
  have w: "strippedReference (s @ ''/'') = s" if "CHR ''/'' \<notin> set s" for s
  proof -
    have "endsWith (s @ ''/'') ''/''" by (auto simp: endsWith_iff)
    moreover have "\<not> startsWith s ''https://''" "\<not> startsWith s ''http://''" "\<not> startsWith s ''//''"
      using that by (auto simp: startsWith_iff)
    ultimately show ?thesis unfolding strippedReference_def Let_def by simp
  qed
  have o: "strippedReference ''https://http:////shop/'' = ''shop''"
    "strippedReference ''http://https://shop//'' = ''https://shop/''"
    by (simp_all add: strippedReference_def endsWith_def startsWith_def)
  have c0: "\<forall>s. strippedReference s =
        spec_stripLeading ''//''
          (spec_stripLeading ''http://'' (spec_stripLeading ''https://'' (spec_stripTrailing s)))"
    using stripped_in_words by blast
  have c1: "\<forall>s. parseStoreReference s =
        (if strippedReference s = ''test'' then (True, ''test.localhost'')
         else if \<exists>L. matchesLabel L \<and>
                   (strippedReference s = L @ ''.jumpseller.com'' \<or>
                    strippedReference s = L @ ''.localhost'')
              then (True, strippedReference s)
         else if matchesLabel (strippedReference s)
              then (True, strippedReference s @ ''.jumpseller.com'')
         else (False, strippedReference s))"
    using parse_on_stripped by blast
  have c2: "\<forall>L. matchesLabel L \<and> L \<noteq> ''test'' \<longrightarrow>
        parseStoreReference L = (True, L @ ''.jumpseller.com'')"
    using parse_label by blast
  have c3: "\<forall>L. matchesLabel L \<longrightarrow>
        parseStoreReference (L @ ''.jumpseller.com'') = (True, L @ ''.jumpseller.com'') \<and>
        parseStoreReference (L @ ''.localhost'') = (True, L @ ''.localhost'')"
    using parse_domain by blast
  have c4: "\<forall>s. (\<exists>c \<in> set (strippedReference s). \<not> labelChar c \<and> c \<noteq> CHR ''.'') \<longrightarrow>
        parseStoreReference s = (False, strippedReference s)"
    using parse_reject by blast
  have c5: "\<forall>s. CHR ''/'' \<notin> set s \<longrightarrow>
        strippedReference s = s \<and>
        strippedReference (s @ ''/'') = s \<and>
        strippedReference (''https://'' @ s @ ''/'') = s \<and>
        strippedReference (''http://'' @ s @ ''/'') = s \<and>
        strippedReference (''//'' @ s @ ''/'') = s"
    using w strippedReference_no_slash strippedReference_wrapped by blast
  show ?thesis
    by (intro conjI) (rule c0 c1 t c2 c3 c4 c5 o)+
qed

theorem parseStoreReference_amended_witness:
  "matchesLabel ''shop'' \<and> ''shop'' \<noteq> ''test'' \<and>
   parseStoreReference ''shop'' = (True, ''shop.jumpseller.com'') \<and>
   parseStoreReference ''shop.jumpseller.com'' = (True, ''shop.jumpseller.com'') \<and>
   parseStoreReference ''shop.localhost'' = (True, ''shop.localhost'') \<and>
   CHR ''S'' \<in> set (strippedReference ''//Shop'') \<and> \<not> labelChar CHR ''S'' \<and>
   parseStoreReference ''//Shop'' = (False, ''Shop'') \<and>
   CHR ''/'' \<notin> set ''shop'' \<and> strippedReference ''https://shop/'' = ''shop'' \<and>
   parseStoreReference ''https://shop/'' = (True, ''shop.jumpseller.com'') \<and>
   parseStoreReference ''http://shop.localhost'' = (True, ''shop.localhost'') \<and>
   parseStoreReference ''//test/'' = (True, ''test.localhost'') \<and>
   parseStoreReference ''https://a.b/'' = (False, ''a.b'') \<and>
   parseStoreReference ''/'' = (False, [])"
proof -
  have l: "matchesLabel ''shop''" by (simp add: matchesLabel_def labelChar_def)
  have s: "strippedReference ''//Shop'' = ''Shop''"
    by (simp add: strippedReference_def endsWith_def startsWith_def)
  have c: "\<exists>c \<in> set (strippedReference ''//Shop''). \<not> labelChar c \<and> c \<noteq> CHR ''.''"
    unfolding s by (simp add: labelChar_def)
  have n: "CHR ''/'' \<notin> set ''shop''" by simp
  note amd = parseStoreReference_amended
  note a1 = amd [THEN conjunct2, THEN conjunct1, rule_format]
  note a2 = amd [THEN conjunct2, THEN conjunct2, THEN conjunct2, THEN conjunct1, rule_format]
  note a3 = amd [THEN conjunct2, THEN conjunct2, THEN conjunct2, THEN conjunct2, THEN conjunct1,
      rule_format]
  note a4 = amd [THEN conjunct2, THEN conjunct2, THEN conjunct2, THEN conjunct2, THEN conjunct2,
      THEN conjunct1, rule_format]
  note a5 = amd [THEN conjunct2, THEN conjunct2, THEN conjunct2, THEN conjunct2, THEN conjunct2,
      THEN conjunct2, THEN conjunct1, rule_format]
  have 1: "parseStoreReference ''shop'' = (True, ''shop'' @ ''.jumpseller.com'')"
    by (rule a2) (simp add: l)
  have 2: "parseStoreReference (''shop'' @ ''.jumpseller.com'') = (True, ''shop'' @ ''.jumpseller.com'')"
    "parseStoreReference (''shop'' @ ''.localhost'') = (True, ''shop'' @ ''.localhost'')"
    using a3 [OF l] by blast+
  have 3: "parseStoreReference ''//Shop'' = (False, strippedReference ''//Shop'')"
    by (rule a4) (rule c)
  have 4: "strippedReference (''https://'' @ ''shop'' @ ''/'') = ''shop''"
    using a5 [OF n] by blast
  have forms: "(\<exists>L. matchesLabel L \<and> (t = L @ ''.jumpseller.com'' \<or> t = L @ ''.localhost'')) =
      (matchesLabelSuffix ''.jumpseller.com'' t \<or> matchesLabelSuffix ''.localhost'' t)" for t
    by (auto simp: matchesLabelSuffix_iff)
  have st: "strippedReference ''https://shop/'' = ''shop''"
    "strippedReference ''http://shop.localhost'' = ''shop.localhost''"
    "strippedReference ''//test/'' = ''test''"
    "strippedReference ''https://a.b/'' = ''a.b''"
    "strippedReference ''/'' = []"
    by (simp_all add: strippedReference_def endsWith_def startsWith_def)
  have 5: "parseStoreReference ''https://shop/'' = (True, ''shop.jumpseller.com'')"
    "parseStoreReference ''http://shop.localhost'' = (True, ''shop.localhost'')"
    "parseStoreReference ''//test/'' = (True, ''test.localhost'')"
    "parseStoreReference ''https://a.b/'' = (False, ''a.b'')"
    "parseStoreReference ''/'' = (False, [])"
    unfolding a1 [of "''https://shop/''"] a1 [of "''http://shop.localhost''"]
      a1 [of "''//test/''"] a1 [of "''https://a.b/''"] a1 [of "''/''"] st forms
    by (simp_all add: matchesLabelSuffix_def matchesLabel_def endsWith_def labelChar_def)
  show ?thesis using l 1 2 3 4 5 s by (simp add: labelChar_def)
qed

section \<open>Resolution of the current store\<close>

declare findScopeLoop.simps [simp del]

lemma findScopeFolder_globalDefault:
  "findScopeFolder e fs a = Inr (d, a1) \<Longrightarrow>
   globalDefault a1 = globalDefault a \<and> commandStore a1 = commandStore a \<and>
   credentialsText a1 = credentialsText a \<and> credentialsTextChanged a1 = credentialsTextChanged a"
  by (auto simp: findScopeFolder_def split: sum.splits option.splits)

lemma getGlobalDefault_value:
  assumes "getGlobalDefault e fs a = Inr (g, a2)" "globalDefault a1 = globalDefault a"
  shows "\<exists>a3. getGlobalDefault e fs a1 = Inr (g, a3)"
  using assms
  by (auto simp: getGlobalDefault_def loadGlobalDefault_def Let_def
      split: sum.splits jsval.splits if_splits)

lemma getGlobalDefault_set_or_absent:
  assumes "getGlobalDefault e fs a = Inr (g, a2)"
  shows "truthy g \<or> g = JFalse \<or> g = Str []"
  using assms
  by (cases g)
     (auto simp: getGlobalDefault_def loadGlobalDefault_def Let_def
      split: sum.splits jsval.splits if_splits)

text \<open>
  Claim C2. A layer is set when its value is a non-empty string. Whenever the local and the
  global lookup return (no read fails with an error other than \<open>ENOENT\<close>), \<open>currentStore()\<close>
  returns the command-line store when it is set; otherwise the local default when the walk
  found one; otherwise the global default when it is set; otherwise an absent value
  (\<open>false\<close>, or an empty string). A set command-line store is returned without any lookup.
\<close>

theorem currentStore_precedence:
  assumes "getLocalDefault e fs a = Inr (l, a1)"
      and "getGlobalDefault e fs a = Inr (g, a2)"
  shows "(\<exists>a'. currentStore e fs a =
            Inr (if truthy (commandStore a) then commandStore a
                 else if truthy l then l
                 else if truthy g then g
                 else (if g = JFalse then JFalse else Str []), a')) \<and>
         (truthy (commandStore a) \<longrightarrow> currentStore e fs a = Inr (commandStore a, a))"
proof -
  from assms(1) have "globalDefault a1 = globalDefault a"
    by (auto simp: getLocalDefault_def split: sum.splits dest: findScopeFolder_globalDefault)
  from getGlobalDefault_value [OF assms(2) this]
  obtain a3 where g: "getGlobalDefault e fs a1 = Inr (g, a3)" ..
  from getGlobalDefault_set_or_absent [OF assms(2)]
  have "truthy g \<or> g = JFalse \<or> g = Str []" .
  then have "(if truthy g then g else (if g = JFalse then JFalse else Str [])) = g"
    by auto
  then show ?thesis
    using assms(1) g by (simp add: currentStore_def)
qed

theorem currentStore_precedence_witness:
  "(let e = \<lparr>homedir = ''/home/u'', cwd = ''/home/u/p/q''\<rparr>;
        fs = (\<lambda>_. ENOENT)(''/home/u/p/.jumpseller-store'' := Data ''local.jumpseller.com'',
                            ''/home/u/.config/jumpseller/store'' := Data ''global.jumpseller.com'');
        a1 = newAuth\<lparr>scopeDefault := Str ''local.jumpseller.com'', scopeFolder := Some ''/home/u/p''\<rparr>
    in getLocalDefault e fs newAuth = Inr (Str ''local.jumpseller.com'', a1) \<and>
       getGlobalDefault e fs newAuth =
         Inr (Str ''global.jumpseller.com'', newAuth\<lparr>globalDefault := Str ''global.jumpseller.com''\<rparr>) \<and>
       currentStore e fs newAuth = Inr (Str ''local.jumpseller.com'', a1) \<and>
       truthy (commandStore (setCommandStore ''cmd.jumpseller.com'' newAuth)) \<and>
       currentStore e fs (setCommandStore ''cmd.jumpseller.com'' newAuth) =
         Inr (Str ''cmd.jumpseller.com'', setCommandStore ''cmd.jumpseller.com'' newAuth))"
proof -
  define e where "e = \<lparr>homedir = ''/home/u'', cwd = ''/home/u/p/q''\<rparr>"
  define fs :: filesystem where
    "fs = (\<lambda>_. ENOENT)(''/home/u/p/.jumpseller-store'' := Data ''local.jumpseller.com'',
                            ''/home/u/.config/jumpseller/store'' := Data ''global.jumpseller.com'')"
  define a1 where
    "a1 = newAuth\<lparr>scopeDefault := Str ''local.jumpseller.com'', scopeFolder := Some ''/home/u/p''\<rparr>"
  have d: "dirname ''/home/u/p/q'' = ''/home/u/p''"
    by (simp add: dirname_def)
  have w: "findScopeLoop fs ''/home/u'' ''/home/u/p/q'' = Inr (Some (''local.jumpseller.com'', ''/home/u/p''))"
    by (simp add: findScopeLoop.simps d fs_def pjoin_def endsWith_def startsWith_def
        LOCAL_CURRENT_FILE_def)
  have l: "getLocalDefault e fs newAuth = Inr (Str ''local.jumpseller.com'', a1)"
    by (simp add: getLocalDefault_def findScopeFolder_def w e_def a1_def)
  have g: "getGlobalDefault e fs newAuth =
         Inr (Str ''global.jumpseller.com'', newAuth\<lparr>globalDefault := Str ''global.jumpseller.com''\<rparr>)"
    by (simp add: getGlobalDefault_def loadGlobalDefault_def newAuth_def readFileIfExists_def
        GLOBAL_CURRENT_FILE_def CONFIG_DIR_def pjoin_def endsWith_def e_def fs_def
        trim_def trimStart_def trimEnd_def isSpace_def Let_def)
  from currentStore_precedence [OF l g]
  obtain a' where c: "currentStore e fs newAuth = Inr (Str ''local.jumpseller.com'', a')"
    by (auto simp: newAuth_def)
  have loc: "currentStore e fs newAuth = Inr (Str ''local.jumpseller.com'', a1)"
    using c l by (simp add: currentStore_def newAuth_def)
  define ac where "ac = setCommandStore ''cmd.jumpseller.com'' newAuth"
  have t: "truthy (commandStore ac)" by (simp add: ac_def setCommandStore_def)
  have lc: "getLocalDefault e fs ac =
      Inr (Str ''local.jumpseller.com'',
           ac\<lparr>scopeDefault := Str ''local.jumpseller.com'', scopeFolder := Some ''/home/u/p''\<rparr>)"
    by (simp add: getLocalDefault_def findScopeFolder_def w e_def)
  have gc: "getGlobalDefault e fs ac =
      Inr (Str ''global.jumpseller.com'', ac\<lparr>globalDefault := Str ''global.jumpseller.com''\<rparr>)"
    by (simp add: getGlobalDefault_def loadGlobalDefault_def newAuth_def readFileIfExists_def
        GLOBAL_CURRENT_FILE_def CONFIG_DIR_def pjoin_def endsWith_def e_def fs_def
        trim_def trimStart_def trimEnd_def isSpace_def Let_def ac_def setCommandStore_def)
  from currentStore_precedence [OF lc gc, THEN conjunct2, rule_format, OF t]
  have cmd: "currentStore e fs ac = Inr (Str ''cmd.jumpseller.com'', ac)"
    by (simp add: ac_def setCommandStore_def)
  show ?thesis
    using l g loc t cmd unfolding e_def fs_def a1_def ac_def Let_def by simp
qed

section \<open>The walk for the local default goes past the home directory\<close>

text \<open>
  Claim C6 says that the walk ends once it is above the home directory. With the working
  directory \<open>/home/u/p\<close>, the home directory \<open>/home/u\<close> and a local-default file in \<open>/home\<close>
  only, the loop of \<open>#findScopeFolder\<close> reads \<open>/home/u/p\<close>, \<open>/home/u\<close> and then \<open>/home\<close>, which is
  above the home directory, and takes the file it finds there: the condition
  \<open>fingerDir.startsWith(home) || fingerDir !== "/"\<close> stays true up to the root.
\<close>

theorem findScopeFolder_above_home:
  "\<not> startsWith ''/home'' ''/home/u'' \<and>
   getLocalDefault \<lparr>homedir = ''/home/u'', cwd = ''/home/u/p''\<rparr>
     ((\<lambda>_. ENOENT)(''/home/.jumpseller-store'' := Data ''other.jumpseller.com'')) newAuth =
   Inr (Str ''other.jumpseller.com'',
        newAuth\<lparr>scopeDefault := Str ''other.jumpseller.com'', scopeFolder := Some ''/home''\<rparr>)"
proof -
  have d: "dirname ''/home/u/p'' = ''/home/u''" "dirname ''/home/u'' = ''/home''"
    by (simp_all add: dirname_def)
  have "findScopeLoop ((\<lambda>_. ENOENT)(''/home/.jumpseller-store'' := Data ''other.jumpseller.com''))
      ''/home/u'' ''/home/u/p'' = Inr (Some (''other.jumpseller.com'', ''/home''))"
    by (simp add: findScopeLoop.simps d pjoin_def endsWith_def startsWith_def
        LOCAL_CURRENT_FILE_def)
  then show ?thesis
    by (simp add: getLocalDefault_def findScopeFolder_def startsWith_def)
qed

section \<open>The event listener after a positive git check\<close>

text \<open>
  Claim C1 says that no remote request is issued for an event whose git check is positive.
  The listener runs the check before the \<open>switch\<close> and calls \<open>stop()\<close>, but it does not
  return: for a \<open>change\<close> event on \<open>templates/a.json\<close> while the index is locked, the write
  request is pushed all the same.
\<close>

theorem onAll_writes_after_git_check:
  "checkGitRepository
     \<lparr>allowlist = [], blocklist = [],
      gitObserver = Some \<lparr>folder = ''/w'', branch = ''main'', stash = ''da39''\<rparr>,
      requests = [], stopCalled = False, logged = []\<rparr>
     \<lparr>indexLocked = True, readBranch = ''main'', readStash = ''da39''\<rparr> \<and>
   onAll (\<lambda>p pats. p \<in> set pats) (\<lambda>watched fullpath. drop (length watched + 1) fullpath)
     ((\<lambda>_. ENOENT)(''/w/templates/a.json'' := Data ''{}''))
     \<lparr>indexLocked = True, readBranch = ''main'', readStash = ''da39''\<rparr> ''/w''
     \<lparr>allowlist = [], blocklist = [],
      gitObserver = Some \<lparr>folder = ''/w'', branch = ''main'', stash = ''da39''\<rparr>,
      requests = [], stopCalled = False, logged = []\<rparr>
     ''change'' ''/w/templates/a.json'' =
   Inr \<lparr>allowlist = [], blocklist = [],
        gitObserver = Some \<lparr>folder = ''/w'', branch = ''main'', stash = ''da39''\<rparr>,
        requests = [Write ''templates/a.json'' ''{}''], stopCalled = True,
        logged = [GitDetected ''/w'', LogAction ''WRITE'' ''templates/a.json'']\<rparr>"
  by (simp add: onAll_def checkGitRepository_def check_def isKnownPath_def startsWith_def Let_def)

section \<open>Flushing the credentials\<close>

lemma flush_permitted:
  assumes "credentialsTextChanged a" "credentialsText a = Some content"
      and "os fs (Mkdir (CONFIG_DIR e))"
      and "os fs (WriteFile (CREDENTIALS_FILE e @ ''.tmp.'' @ rnd) (trimStart content))"
      and "os (fs(CREDENTIALS_FILE e @ ''.tmp.'' @ rnd := Data (trimStart content)))
             (Rename (CREDENTIALS_FILE e @ ''.tmp.'' @ rnd) (CREDENTIALS_FILE e))"
  shows "\<exists>fs'. flush e os rnd fs a =
            Inr (a, [Mkdir (CONFIG_DIR e),
                     WriteFile (CREDENTIALS_FILE e @ ''.tmp.'' @ rnd) (trimStart content),
                     Rename (CREDENTIALS_FILE e @ ''.tmp.'' @ rnd) (CREDENTIALS_FILE e)], fs') \<and>
          fs' (CREDENTIALS_FILE e) = Data (trimStart content) \<and>
          fs' (CREDENTIALS_FILE e @ ''.tmp.'' @ rnd) = ENOENT \<and>
          (\<forall>file. file \<noteq> CREDENTIALS_FILE e \<and> file \<noteq> CREDENTIALS_FILE e @ ''.tmp.'' @ rnd \<longrightarrow>
             fs' file = fs file)"
  using assms by (simp add: flush_def writeCredentialsFile_def fsCall_def Let_def)

lemma flush_refused:
  assumes "credentialsTextChanged a" "credentialsText a = Some content"
      and "\<not> (os fs (Mkdir (CONFIG_DIR e)) \<and>
             os fs (WriteFile (CREDENTIALS_FILE e @ ''.tmp.'' @ rnd) (trimStart content)) \<and>
             os (fs(CREDENTIALS_FILE e @ ''.tmp.'' @ rnd := Data (trimStart content)))
               (Rename (CREDENTIALS_FILE e @ ''.tmp.'' @ rnd) (CREDENTIALS_FILE e)))"
  shows "\<exists>calls fs'. flush e os rnd fs a = Inl (WriteError, calls, fs') \<and>
          length calls < 3 \<and> fs' (CREDENTIALS_FILE e) = fs (CREDENTIALS_FILE e)"
  using assms by (auto simp: flush_def writeCredentialsFile_def fsCall_def Let_def)

lemma flush_returned:
  assumes "flush e os rnd fs a = Inr (a', calls, fs')"
      and "credentialsTextChanged a" "credentialsText a = Some content"
  shows "a' = a \<and> fs' (CREDENTIALS_FILE e) = Data (trimStart content)"
  using assms
  by (auto simp: flush_def writeCredentialsFile_def fsCall_def Let_def split: if_splits)

text \<open>
  Claim C8, as stated, fails: \<open>flush\<close> never clears the dirty flag, so a second \<open>flush\<close>
  with no mutation in between writes the file again.
\<close>

theorem flush_counterexample:
  "(case flush \<lparr>homedir = ''/home/u'', cwd = ''/home/u''\<rparr> (\<lambda>fs call. True) ''r1'' (\<lambda>_. ENOENT)
           (newAuth\<lparr>credentialsText := Some ''a b'', credentialsTextChanged := True\<rparr>) of
      Inl failure \<Rightarrow> False
    | Inr (a1, calls1, fs1) \<Rightarrow>
        credentialsTextChanged a1 \<and>
        (case flush \<lparr>homedir = ''/home/u'', cwd = ''/home/u''\<rparr> (\<lambda>fs call. True) ''r2'' fs1 a1 of
           Inl failure \<Rightarrow> False
         | Inr (a2, calls2, fs2) \<Rightarrow>
             calls2 = [Mkdir ''/home/u/.config/jumpseller'',
                       WriteFile ''/home/u/.config/jumpseller/credentials.tmp.r2'' ''a b'',
                       Rename ''/home/u/.config/jumpseller/credentials.tmp.r2''
                         ''/home/u/.config/jumpseller/credentials'']))"
  by (simp add: flush_def writeCredentialsFile_def fsCall_def newAuth_def CREDENTIALS_FILE_def
      CONFIG_DIR_def pjoin_def endsWith_def trimStart_def isSpace_def Let_def)

text \<open>
  Claim C8, amended. \<open>flush()\<close> touches the disk if and only if the dirty flag is set. With
  the flag set it creates the configuration directory, writes the text (without leading
  white space) to a temporary file beside the credential file and renames that file onto
  the credential file. When the operating system carries out the three calls, \<open>flush()\<close>
  returns and the credential file holds the text; when it refuses one of them, \<open>flush()\<close>
  throws, fewer than three calls were made and the credential file is as it was. With the
  flag unset \<open>flush()\<close> makes no call. The object is never changed: the dirty flag is not
  cleared.
\<close>

theorem flush_amended:
  "(credentialsTextChanged a \<and> credentialsText a = Some content \<longrightarrow>
      (os fs (Mkdir (CONFIG_DIR e)) \<and>
       os fs (WriteFile (CREDENTIALS_FILE e @ ''.tmp.'' @ rnd) (trimStart content)) \<and>
       os (fs(CREDENTIALS_FILE e @ ''.tmp.'' @ rnd := Data (trimStart content)))
         (Rename (CREDENTIALS_FILE e @ ''.tmp.'' @ rnd) (CREDENTIALS_FILE e)) \<longrightarrow>
       (\<exists>fs'. flush e os rnd fs a =
          Inr (a, [Mkdir (CONFIG_DIR e),
                   WriteFile (CREDENTIALS_FILE e @ ''.tmp.'' @ rnd) (trimStart content),
                   Rename (CREDENTIALS_FILE e @ ''.tmp.'' @ rnd) (CREDENTIALS_FILE e)], fs') \<and>
        fs' (CREDENTIALS_FILE e) = Data (trimStart content) \<and>
        fs' (CREDENTIALS_FILE e @ ''.tmp.'' @ rnd) = ENOENT \<and>
        (\<forall>file. file \<noteq> CREDENTIALS_FILE e \<and> file \<noteq> CREDENTIALS_FILE e @ ''.tmp.'' @ rnd \<longrightarrow>
           fs' file = fs file))) \<and>
      (\<not> (os fs (Mkdir (CONFIG_DIR e)) \<and>
          os fs (WriteFile (CREDENTIALS_FILE e @ ''.tmp.'' @ rnd) (trimStart content)) \<and>
          os (fs(CREDENTIALS_FILE e @ ''.tmp.'' @ rnd := Data (trimStart content)))
            (Rename (CREDENTIALS_FILE e @ ''.tmp.'' @ rnd) (CREDENTIALS_FILE e))) \<longrightarrow>
       (\<exists>calls fs'. flush e os rnd fs a = Inl (WriteError, calls, fs') \<and>
          length calls < 3 \<and> fs' (CREDENTIALS_FILE e) = fs (CREDENTIALS_FILE e)))) \<and>
   (\<not> credentialsTextChanged a \<longrightarrow> flush e os rnd fs a = Inr (a, [], fs))"
proof (intro conjI impI)
  assume "\<not> credentialsTextChanged a"
  then show "flush e os rnd fs a = Inr (a, [], fs)" by (simp add: flush_def)
next
  assume d: "credentialsTextChanged a \<and> credentialsText a = Some content"
    and p: "os fs (Mkdir (CONFIG_DIR e)) \<and>
       os fs (WriteFile (CREDENTIALS_FILE e @ ''.tmp.'' @ rnd) (trimStart content)) \<and>
       os (fs(CREDENTIALS_FILE e @ ''.tmp.'' @ rnd := Data (trimStart content)))
         (Rename (CREDENTIALS_FILE e @ ''.tmp.'' @ rnd) (CREDENTIALS_FILE e))"
  then show "\<exists>fs'. flush e os rnd fs a =
          Inr (a, [Mkdir (CONFIG_DIR e),
                   WriteFile (CREDENTIALS_FILE e @ ''.tmp.'' @ rnd) (trimStart content),
                   Rename (CREDENTIALS_FILE e @ ''.tmp.'' @ rnd) (CREDENTIALS_FILE e)], fs') \<and>
        fs' (CREDENTIALS_FILE e) = Data (trimStart content) \<and>
        fs' (CREDENTIALS_FILE e @ ''.tmp.'' @ rnd) = ENOENT \<and>
        (\<forall>file. file \<noteq> CREDENTIALS_FILE e \<and> file \<noteq> CREDENTIALS_FILE e @ ''.tmp.'' @ rnd \<longrightarrow>
           fs' file = fs file)"
    using flush_permitted [of a content os fs e rnd] by blast
next
  assume d: "credentialsTextChanged a \<and> credentialsText a = Some content"
    and p: "\<not> (os fs (Mkdir (CONFIG_DIR e)) \<and>
          os fs (WriteFile (CREDENTIALS_FILE e @ ''.tmp.'' @ rnd) (trimStart content)) \<and>
          os (fs(CREDENTIALS_FILE e @ ''.tmp.'' @ rnd := Data (trimStart content)))
            (Rename (CREDENTIALS_FILE e @ ''.tmp.'' @ rnd) (CREDENTIALS_FILE e)))"
  then show "\<exists>calls fs'. flush e os rnd fs a = Inl (WriteError, calls, fs') \<and>
          length calls < 3 \<and> fs' (CREDENTIALS_FILE e) = fs (CREDENTIALS_FILE e)"
    using flush_refused [of a content os fs e rnd] by blast
qed

theorem flush_amended_witness:
  "(let e = \<lparr>homedir = ''/home/u'', cwd = ''/home/u''\<rparr>;
        clean = newAuth\<lparr>credentialsText := Some ''a b''\<rparr>;
        dirty = clean\<lparr>credentialsTextChanged := True\<rparr>;
        willing = (\<lambda>fs call. True);
        unwilling = (\<lambda>fs call. case call of Mkdir dir \<Rightarrow> False | _ \<Rightarrow> True);
        old = (\<lambda>_. ENOENT)(''/home/u/.config/jumpseller/credentials'' := Data ''c d'')
    in credentialsTextChanged dirty \<and> credentialsText dirty = Some ''a b'' \<and>
       (\<exists>fs'. flush e willing ''r1'' old dirty =
          Inr (dirty, [Mkdir (CONFIG_DIR e),
                   WriteFile (CREDENTIALS_FILE e @ ''.tmp.r1'') ''a b'',
                   Rename (CREDENTIALS_FILE e @ ''.tmp.r1'') (CREDENTIALS_FILE e)], fs') \<and>
          fs' (CREDENTIALS_FILE e) = Data ''a b'') \<and>
       \<not> unwilling old (Mkdir (CONFIG_DIR e)) \<and>
       flush e unwilling ''r1'' old dirty = Inl (WriteError, [], old) \<and>
       \<not> credentialsTextChanged clean \<and>
       flush e willing ''r1'' old clean = Inr (clean, [], old))"
proof -
  define e where "e = \<lparr>homedir = ''/home/u'', cwd = ''/home/u''\<rparr>"
  define clean where "clean = newAuth\<lparr>credentialsText := Some ''a b''\<rparr>"
  define dirty where "dirty = clean\<lparr>credentialsTextChanged := True\<rparr>"
  define willing :: platform where "willing = (\<lambda>fs call. True)"
  define unwilling :: platform where
    "unwilling = (\<lambda>fs call. case call of Mkdir dir \<Rightarrow> False | _ \<Rightarrow> True)"
  define old :: filesystem where
    "old = (\<lambda>_. ENOENT)(''/home/u/.config/jumpseller/credentials'' := Data ''c d'')"
  have d: "credentialsTextChanged dirty \<and> credentialsText dirty = Some ''a b''"
    by (simp add: dirty_def clean_def)
  have c: "\<not> credentialsTextChanged clean" by (simp add: clean_def newAuth_def)
  have t: "trimStart ''a b'' = ''a b''" by (simp add: trimStart_def isSpace_def)
  have w: "willing old (Mkdir (CONFIG_DIR e)) \<and>
       willing old (WriteFile (CREDENTIALS_FILE e @ ''.tmp.'' @ ''r1'') (trimStart ''a b'')) \<and>
       willing (old(CREDENTIALS_FILE e @ ''.tmp.'' @ ''r1'' := Data (trimStart ''a b'')))
         (Rename (CREDENTIALS_FILE e @ ''.tmp.'' @ ''r1'') (CREDENTIALS_FILE e))"
    by (simp add: willing_def)
  have u: "\<not> unwilling old (Mkdir (CONFIG_DIR e))" by (simp add: unwilling_def)
  then have u': "\<not> (unwilling old (Mkdir (CONFIG_DIR e)) \<and>
       unwilling old (WriteFile (CREDENTIALS_FILE e @ ''.tmp.'' @ ''r1'') (trimStart ''a b'')) \<and>
       unwilling (old(CREDENTIALS_FILE e @ ''.tmp.'' @ ''r1'' := Data (trimStart ''a b'')))
         (Rename (CREDENTIALS_FILE e @ ''.tmp.'' @ ''r1'') (CREDENTIALS_FILE e)))"
    by simp
  note amd = flush_amended [of dirty "''a b''" _ old e "''r1''"]
  from amd [of willing, THEN conjunct1, rule_format, OF d, THEN conjunct1, rule_format, OF w]
  have 1: "\<exists>fs'. flush e willing ''r1'' old dirty =
          Inr (dirty, [Mkdir (CONFIG_DIR e),
                   WriteFile (CREDENTIALS_FILE e @ ''.tmp.r1'') ''a b'',
                   Rename (CREDENTIALS_FILE e @ ''.tmp.r1'') (CREDENTIALS_FILE e)], fs') \<and>
          fs' (CREDENTIALS_FILE e) = Data ''a b''"
    unfolding t by auto
  from amd [of unwilling, THEN conjunct1, rule_format, OF d, THEN conjunct2, rule_format, OF u']
  obtain calls fs' where "flush e unwilling ''r1'' old dirty = Inl (WriteError, calls, fs')"
    by blast
  moreover have "flush e unwilling ''r1'' old dirty = Inl (WriteError, [], old)"
    using u d by (simp add: flush_def writeCredentialsFile_def fsCall_def)
  ultimately have 2: "flush e unwilling ''r1'' old dirty = Inl (WriteError, [], old)" by simp
  from flush_amended [of clean "''a b''" willing old e "''r1''", THEN conjunct2, rule_format, OF c]
  have 3: "flush e willing ''r1'' old clean = Inr (clean, [], old)" .
  show ?thesis
    using d c 1 2 3 u
    unfolding e_def [symmetric] dirty_def [symmetric] clean_def [symmetric]
      willing_def [symmetric] unwilling_def [symmetric] old_def [symmetric] Let_def
    by simp
qed

section \<open>Lines, white space and canonical lines\<close>

lemma isSpace_nl [simp]: "isSpace (CHR 0x0A)"
  by (simp add: isSpace_def)

lemma isSpace_not_hash: "isSpace c \<Longrightarrow> c \<noteq> CHR ''#''"
  by (auto simp: isSpace_def)

lemma split_nl_ne [simp]: "split_nl s \<noteq> []"
  by (induction s) (auto split: list.splits)

lemma split_nl_Cons:
  "c \<noteq> CHR 0x0A \<Longrightarrow> split_nl (c # cs) = (c # hd (split_nl cs)) # tl (split_nl cs)"
  by (cases "split_nl cs") (use split_nl_ne in auto)

lemma split_nl_nl: "split_nl (CHR 0x0A # cs) = [] # split_nl cs"
  by simp

declare split_nl.simps(2) [simp del]

lemma hd_tl_split_nl:
  "hd (split_nl s) \<in> set (split_nl s)" "set (tl (split_nl s)) \<subseteq> set (split_nl s)"
  by (cases "split_nl s"; use split_nl_ne in auto)+

lemma split_nl_no_nl: "l \<in> set (split_nl s) \<Longrightarrow> CHR 0x0A \<notin> set l"
proof (induction s arbitrary: l)
  case Nil
  then show ?case by simp
next
  case (Cons c cs)
  show ?case
  proof (cases "c = CHR 0x0A")
    case True
    with Cons show ?thesis by (auto simp: split_nl_nl)
  next
    case False
    with Cons.prems have "l = c # hd (split_nl cs) \<or> l \<in> set (tl (split_nl cs))"
      by (simp add: split_nl_Cons)
    then show ?thesis
      using Cons.IH hd_tl_split_nl [of cs] False by auto
  qed
qed

lemma split_nl_append:
  "split_nl (a @ b) =
     butlast (split_nl a) @ [last (split_nl a) @ hd (split_nl b)] @ tl (split_nl b)"
proof (induction a)
  case Nil
  then show ?case by simp
next
  case (Cons c a)
  show ?case
  proof (cases "c = CHR 0x0A")
    case True
    then show ?thesis using Cons by (simp add: split_nl_nl)
  next
    case False
    show ?thesis
    proof (cases "butlast (split_nl a) = []")
      case True
      then have "split_nl a = [last (split_nl a)]"
        by (metis append_butlast_last_id append_Nil split_nl_ne)
      then have h: "hd (split_nl a) = last (split_nl a)" "tl (split_nl a) = []"
        by (metis list.sel(1), metis list.sel(3))
      show ?thesis
        unfolding append_Cons split_nl_Cons [OF False] Cons.IH True h by simp
    next
      case F: False
      then obtain x xs where x: "butlast (split_nl a) = x # xs" by (cases "butlast (split_nl a)") auto
      then have "split_nl a = x # xs @ [last (split_nl a)]"
        by (metis append_butlast_last_id append_Cons split_nl_ne)
      then have h: "hd (split_nl a) = x" "tl (split_nl a) = xs @ [last (split_nl a)]"
        by (metis list.sel(1), metis list.sel(3))
      have l: "last ((c # x) # xs @ [last (split_nl a)]) = last (split_nl a)" by simp
      show ?thesis
        unfolding append_Cons split_nl_Cons [OF False] Cons.IH x h
        by (simp add: butlast_append)
    qed
  qed
qed

lemma split_nl_spaces:
  "list_all isSpace w \<Longrightarrow> l \<in> set (split_nl w) \<Longrightarrow> list_all isSpace l"
proof (induction w arbitrary: l)
  case Nil
  then show ?case by simp
next
  case (Cons c w)
  show ?case
  proof (cases "c = CHR 0x0A")
    case True
    with Cons show ?thesis by (auto simp: split_nl_nl)
  next
    case False
    with Cons.prems have "l = c # hd (split_nl w) \<or> l \<in> set (tl (split_nl w))"
      by (simp add: split_nl_Cons)
    then show ?thesis
      using Cons.IH Cons.prems(1) hd_tl_split_nl [of w] by auto
  qed
qed

lemma split_nl_line: "CHR 0x0A \<notin> set l \<Longrightarrow> split_nl (l @ CHR 0x0A # rest) = l # split_nl rest"
  by (induction l) (auto simp: split_nl_Cons split_nl_nl)

lemma split_nl_join:
  "ls \<noteq> [] \<Longrightarrow> \<forall>l \<in> set ls. CHR 0x0A \<notin> set l \<Longrightarrow> split_nl (join_nl ls @ [CHR 0x0A]) = ls @ [[]]"
proof (induction ls rule: join_nl.induct)
  case 1
  then show ?case by simp
next
  case (2 l)
  then show ?case using split_nl_line [of l "[]"] by simp
next
  case (3 l v va)
  then show ?case using split_nl_line [of l "join_nl (v # va) @ [CHR 0x0A]"] by simp
qed

lemma trim_ws_prefix: "list_all isSpace w \<Longrightarrow> trim (w @ s) = trim s"
  by (simp add: trim_def trimStart_def dropWhile_append2 list_all_iff)

lemma trim_ws_suffix:
  assumes "list_all isSpace w"
  shows "trim (s @ w) = trim s"
proof (cases "list_all isSpace s")
  case True
  with assms have d: "dropWhile isSpace (s @ w) = []" "dropWhile isSpace s = []"
    unfolding dropWhile_eq_Nil_conv by (auto simp: list_all_iff)
  show ?thesis unfolding trim_def trimStart_def d ..
next
  case False
  then obtain x where "x \<in> set s" "\<not> isSpace x" by (auto simp: list_all_iff)
  then have "dropWhile isSpace (s @ w) = dropWhile isSpace s @ w"
    by (simp add: dropWhile_append1)
  moreover have "dropWhile isSpace (rev w @ t) = dropWhile isSpace t" for t
    by (rule dropWhile_append2) (use assms in \<open>simp add: list_all_iff\<close>)
  ultimately show ?thesis by (simp add: trim_def trimStart_def trimEnd_def)
qed

lemma canonicalLine_ws_prefix:
  "list_all isSpace w \<Longrightarrow> canonicalLine (w @ l) = canonicalLine l"
  by (simp add: canonicalLine_def takeWhile_append2 isSpace_not_hash list_all_iff trim_ws_prefix)

lemma canonicalLine_ws_suffix:
  assumes "list_all isSpace w"
  shows "canonicalLine (l @ w) = canonicalLine l"
proof (cases "CHR ''#'' \<in> set l")
  case True
  then show ?thesis by (simp add: canonicalLine_def takeWhile_append1)
next
  case False
  then have t: "takeWhile (\<lambda>c. c \<noteq> CHR ''#'') (l @ w) = l @ w" "takeWhile (\<lambda>c. c \<noteq> CHR ''#'') l = l"
    using assms isSpace_not_hash unfolding takeWhile_eq_all_conv by (auto simp: list_all_iff)
  show ?thesis unfolding canonicalLine_def t using assms by (rule trim_ws_suffix)
qed

lemma canonicalLine_spaces: "list_all isSpace w \<Longrightarrow> canonicalLine w = []"
  using canonicalLine_ws_prefix [of w "[]"]
  by (simp add: canonicalLine_def trim_def trimStart_def trimEnd_def)

lemma canonicalLine_Nil [simp]: "canonicalLine [] = []"
  by (simp add: canonicalLine_def trim_def trimStart_def trimEnd_def)

lemma canonLines_split_nl:
  "canonLines content = filter (\<lambda>l. l \<noteq> []) (map canonicalLine (split_nl content))"
  by (cases content) (simp_all add: canonLines_def splitLines_def)

lemma filter_canon_spaces:
  "\<forall>l \<in> set ls. list_all isSpace l \<Longrightarrow> filter (\<lambda>l. l \<noteq> []) (map canonicalLine ls) = []"
  by (induction ls) (simp_all add: canonicalLine_spaces)

lemma canonLines_ws_prefix:
  assumes "list_all isSpace w"
  shows "canonLines (w @ content) = canonLines content"
proof -
  obtain x xs where S: "split_nl content = x # xs"
    by (cases "split_nl content") (use split_nl_ne in auto)
  have b: "\<forall>l \<in> set (butlast (split_nl w)). list_all isSpace l"
    using split_nl_spaces [OF assms] by (meson in_set_butlastD)
  have "list_all isSpace (last (split_nl w))"
    using split_nl_spaces [OF assms] by simp
  then have c: "canonicalLine (last (split_nl w) @ x) = canonicalLine x"
    by (rule canonicalLine_ws_prefix)
  show ?thesis
    unfolding canonLines_split_nl split_nl_append [of w content] S
    by (simp add: filter_canon_spaces [OF b] c)
qed

lemma canonLines_ws_suffix:
  assumes "list_all isSpace w"
  shows "canonLines (content @ w) = canonLines content"
proof -
  obtain ys y where S: "split_nl content = ys @ [y]"
    by (cases "split_nl content" rule: rev_cases) (use split_nl_ne in auto)
  have b: "\<forall>l \<in> set (tl (split_nl w)). list_all isSpace l"
    using split_nl_spaces [OF assms] hd_tl_split_nl(2) [of w] by blast
  have "list_all isSpace (hd (split_nl w))"
    using split_nl_spaces [OF assms] hd_tl_split_nl(1) [of w] by blast
  then have c: "canonicalLine (y @ hd (split_nl w)) = canonicalLine y"
    by (rule canonicalLine_ws_suffix)
  show ?thesis
    unfolding canonLines_split_nl split_nl_append [of content w] S
    by (simp add: filter_canon_spaces [OF b] c)
qed

lemma canonLines_trimStart: "canonLines (trimStart content) = canonLines content"
proof -
  have "content = takeWhile isSpace content @ trimStart content" by (simp add: trimStart_def)
  moreover have "list_all isSpace (takeWhile isSpace content)"
    by (simp add: list_all_iff) (meson set_takeWhileD)
  ultimately show ?thesis using canonLines_ws_prefix by metis
qed

lemma canonLines_trimEnd: "canonLines (trimEnd content) = canonLines content"
proof -
  have "rev content = takeWhile isSpace (rev content) @ dropWhile isSpace (rev content)" by simp
  then have "content = trimEnd content @ rev (takeWhile isSpace (rev content))"
    unfolding trimEnd_def by (metis rev_append rev_rev_ident)
  moreover have "list_all isSpace (rev (takeWhile isSpace (rev content)))"
    by (simp add: list_all_iff) (meson set_takeWhileD)
  ultimately show ?thesis using canonLines_ws_suffix by metis
qed

lemma canonLines_trim: "canonLines (trim content) = canonLines content"
  by (simp add: trim_def canonLines_trimEnd canonLines_trimStart)

lemma findIndex_before:
  "x \<in> set (take (nat (findIndex P xs)) xs) \<Longrightarrow> \<not> P x"
proof (induction xs)
  case Nil
  then show ?case by simp
next
  case (Cons y ys)
  show ?case
  proof (cases "P y")
    case True
    with Cons.prems show ?thesis by simp
  next
    case False
    show ?thesis
    proof (cases "findIndex P ys < 0")
      case True
      with False Cons.prems show ?thesis by (simp add: Let_def)
    next
      case F: False
      then have "nat (findIndex P ys + 1) = Suc (nat (findIndex P ys))" by simp
      with False F Cons show ?thesis by (auto simp: Let_def)
    qed
  qed
qed

lemma canonLines_joinLines:
  assumes "\<forall>l \<in> set ls. CHR 0x0A \<notin> set l"
  shows "canonLines (joinLines ls) = filter (\<lambda>l. l \<noteq> []) (map canonicalLine ls)"
proof -
  define n where "n = nat (findIndex (\<lambda>line. line \<noteq> []) ls)"
  have "\<forall>l \<in> set (take n ls). l = []"
    unfolding n_def using findIndex_before [of _ "\<lambda>line. line \<noteq> []" ls] by blast
  then have t: "filter (\<lambda>l. l \<noteq> []) (map canonicalLine (take n ls)) = []"
    by (intro filter_canon_spaces) auto
  have "filter (\<lambda>l. l \<noteq> []) (map canonicalLine ls) =
        filter (\<lambda>l. l \<noteq> []) (map canonicalLine (take n ls @ drop n ls))" by simp
  also have "\<dots> = filter (\<lambda>l. l \<noteq> []) (map canonicalLine (drop n ls))"
    unfolding map_append filter_append t by simp
  finally have d: "filter (\<lambda>l. l \<noteq> []) (map canonicalLine ls) =
        filter (\<lambda>l. l \<noteq> []) (map canonicalLine (drop n ls))" .
  show ?thesis
  proof (cases "drop n ls = []")
    case True
    then have "joinLines ls = []" by (simp add: joinLines_def n_def [symmetric])
    then show ?thesis using d True by (simp add: canonLines_split_nl)
  next
    case False
    then have j: "joinLines ls = join_nl (drop n ls) @ [CHR 0x0A]"
      by (simp add: joinLines_def n_def [symmetric])
    have "\<forall>l \<in> set (drop n ls). CHR 0x0A \<notin> set l"
      using assms by (meson in_set_dropD)
    from split_nl_join [OF False this]
    show ?thesis unfolding canonLines_split_nl j d by simp
  qed
qed

lemma splitLines_no_nl: "l \<in> set (splitLines content) \<Longrightarrow> CHR 0x0A \<notin> set l"
  by (auto simp: splitLines_def dest: split_nl_no_nl split: if_splits)

section \<open>Reading the credential lines\<close>

lemma split_ws_ne [simp]: "split_ws s \<noteq> []"
  by (induction s rule: split_ws.induct) (auto split: list.splits)

lemma lineDomain_Some: "\<exists>d. lineDomain line = Some d"
  unfolding lineDomain_def by (cases "split_ws (canonicalLine line)") (use split_ws_ne in auto)

lemma listStep_eq:
  assumes "lineDomain line = Some d"
  shows "listStep (doms, warns) line =
     Inr (if parseStoreReference d \<noteq> (True, d) then (doms, warns @ [InvalidDomain d])
          else if \<not> validCredentials (toString (lineCredentials line)) then
            (doms, warns @ [InvalidCredentials d])
          else if map_of doms d \<noteq> None then (doms, warns @ [DuplicateDomain d])
          else (doms @ [(d, lineCredentials line)], warns))"
  using assms
  by (cases "parseStoreReference d")
     (auto simp: listStep_def lineDomain_def lineCredentials_def Let_def)

lemma validCredentials_toString:
  "validCredentials (toString v) \<Longrightarrow> \<exists>c. v = Some c \<and> validCredentials c"
  by (cases v) (auto simp: toString_def validCredentials_def)

lemma forEachLine_spec:
  assumes "\<forall>d. (map_of doms0 d \<noteq> None) = (\<exists>l \<in> set earlier. passesChecks l \<and> lineDomain l = Some d)"
  shows "\<exists>doms. forEachLine (doms0, warns0) lines =
            Inr (doms, warns0 @ spec_warnings earlier lines) \<and>
          (\<forall>d. map_of doms d =
                (case map_of doms0 d of Some c \<Rightarrow> Some c | None \<Rightarrow> spec_entry d lines)) \<and>
          length doms + length (spec_warnings earlier lines) = length doms0 + length lines"
  using assms
proof (induction lines arbitrary: doms0 warns0 earlier)
  case Nil
  then show ?case by (auto split: option.splits)
next
  case (Cons line lines)
  obtain d where d: "lineDomain line = Some d" using lineDomain_Some by blast
  have ex: "list_ex (\<lambda>l. passesChecks l \<and> lineDomain l = Some d) earlier = (map_of doms0 d \<noteq> None)"
    using Cons.prems by (simp add: list_ex_iff)
  show ?case
  proof (cases "passesChecks line \<and> map_of doms0 d = None")
    case True
    then have p: "parseStoreReference d = (True, d)"
      "validCredentials (toString (lineCredentials line))"
      using d by (auto simp: passesChecks_def)
    let ?doms1 = "doms0 @ [(d, lineCredentials line)]"
    have step: "listStep (doms0, warns0) line = Inr (?doms1, warns0)"
      using True p by (simp add: listStep_eq [OF d])
    have w: "spec_warning earlier line = None"
      using True p d ex by (simp add: spec_warning_def)
    have inv: "\<forall>d'. (map_of ?doms1 d' \<noteq> None) =
        (\<exists>l \<in> set (earlier @ [line]). passesChecks l \<and> lineDomain l = Some d')"
      using Cons.prems True d by (auto simp: map_of_append split: option.splits)
    from Cons.IH [OF inv, of warns0]
    obtain doms where r: "forEachLine (?doms1, warns0) lines =
            Inr (doms, warns0 @ spec_warnings (earlier @ [line]) lines)"
      and m: "\<forall>d'. map_of doms d' =
                (case map_of ?doms1 d' of Some c \<Rightarrow> Some c | None \<Rightarrow> spec_entry d' lines)"
      and n: "length doms + length (spec_warnings (earlier @ [line]) lines) =
                length ?doms1 + length lines"
      by blast
    have "\<forall>d'. map_of doms d' =
        (case map_of doms0 d' of Some c \<Rightarrow> Some c | None \<Rightarrow> spec_entry d' (line # lines))"
      using m True d by (auto simp: map_of_append split: option.splits)
    then show ?thesis using step r n w by simp
  next
    case False
    define w where "w =
      (if parseStoreReference d \<noteq> (True, d) then InvalidDomain d
       else if \<not> validCredentials (toString (lineCredentials line)) then InvalidCredentials d
       else DuplicateDomain d)"
    have dup: "map_of doms0 d \<noteq> None"
      if "parseStoreReference d = (True, d)" "validCredentials (toString (lineCredentials line))"
      using that False d by (simp add: passesChecks_def)
    have w: "spec_warning earlier line = Some w"
      using dup ex by (auto simp: spec_warning_def d w_def)
    have step: "listStep (doms0, warns0) line = Inr (doms0, warns0 @ [w])"
      using dup by (auto simp: listStep_eq [OF d] w_def)
    have inv: "\<forall>d'. (map_of doms0 d' \<noteq> None) =
        (\<exists>l \<in> set (earlier @ [line]). passesChecks l \<and> lineDomain l = Some d')"
      using Cons.prems False d by auto
    from Cons.IH [OF inv, of "warns0 @ [w]"]
    obtain doms where r: "forEachLine (doms0, warns0 @ [w]) lines =
            Inr (doms, (warns0 @ [w]) @ spec_warnings (earlier @ [line]) lines)"
      and m: "\<forall>d'. map_of doms d' =
                (case map_of doms0 d' of Some c \<Rightarrow> Some c | None \<Rightarrow> spec_entry d' lines)"
      and n: "length doms + length (spec_warnings (earlier @ [line]) lines) =
                length doms0 + length lines"
      by blast
    have "\<forall>d'. map_of doms d' =
        (case map_of doms0 d' of Some c \<Rightarrow> Some c | None \<Rightarrow> spec_entry d' (line # lines))"
      using m False d by (auto split: option.splits)
    then show ?thesis using step r n w by simp
  qed
qed


lemma spec_entry_Some:
  "spec_entry d lines = Some v \<Longrightarrow>
   \<exists>line \<in> set lines. passesChecks line \<and> lineDomain line = Some d \<and> lineCredentials line = v"
  by (induction lines) (auto split: if_splits)

lemma spec_entry_None_iff:
  "spec_entry d lines = None \<longleftrightarrow>
   \<not> (\<exists>line \<in> set lines. passesChecks line \<and> lineDomain line = Some d)"
  by (induction lines) auto

lemma spec_entry_unique:
  assumes "\<exists>line \<in> set lines. passesChecks line \<and> lineDomain line = Some d"
      and "\<forall>line \<in> set lines. passesChecks line \<and> lineDomain line = Some d \<longrightarrow> lineCredentials line = v"
  shows "spec_entry d lines = Some v"
  using assms by (induction lines) auto

lemma spec_warnings_append:
  "spec_warnings earlier (xs @ ys) = spec_warnings earlier xs @ spec_warnings (earlier @ xs) ys"
  by (induction xs arbitrary: earlier) auto

lemma spec_warnings_mem:
  "spec_warning (earlier @ xs) l = Some w \<Longrightarrow> w \<in> set (spec_warnings earlier (xs @ l # ys))"
  by (simp add: spec_warnings_append)

lemma listCredentials_eq:
  assumes "loadCredentialsFile e fs a = Inr (content, a')"
  shows "listCredentials e fs a =
     (case forEachLine ([], []) (filter (\<lambda>line. canonicalLine line \<noteq> []) (splitLines content)) of
        Inl err \<Rightarrow> Inl err | Inr r \<Rightarrow> Inr (r, a'))"
  using assms by (simp add: listCredentials_def)

lemma listStep_distinct:
  assumes "distinct (map fst doms0)" "listStep (doms0, warns0) line = Inr (doms1, warns1)"
  shows "distinct (map fst doms1)"
proof -
  obtain d where d: "lineDomain line = Some d" using lineDomain_Some by blast
  show ?thesis
    using assms unfolding listStep_eq [OF d]
    by (auto simp: map_of_eq_None_iff split: if_splits)
qed

lemma forEachLine_distinct:
  "distinct (map fst doms0) \<Longrightarrow> forEachLine (doms0, warns0) lines = Inr (doms, warns) \<Longrightarrow>
   distinct (map fst doms)"
proof (induction lines arbitrary: doms0 warns0)
  case Nil
  then show ?case by simp
next
  case (Cons line lines)
  from Cons.prems(2) obtain doms1 warns1
    where s: "listStep (doms0, warns0) line = Inr (doms1, warns1)"
      and r: "forEachLine (doms1, warns1) lines = Inr (doms, warns)"
    by (auto split: sum.splits)
  from listStep_distinct [OF Cons.prems(1) s] have "distinct (map fst doms1)" .
  from Cons.IH [OF this r] show ?case .
qed

text \<open>
  Claim C9. Once the credential text is loaded, \<open>listCredentials()\<close> returns for every
  content: the callback never throws. The lines read are those whose canonical form is not
  empty. The mapping returned holds, for each domain, the credentials of the first line for
  that domain that passes both the store-reference check and the credential-format check,
  and nothing else; every other line gives exactly one warning: an invalid domain, invalid
  credentials, or a domain that an earlier accepted line already has.
\<close>

theorem listCredentials_skips_bad_lines:
  assumes "loadCredentialsFile e fs a = Inr (content, a')"
  shows "\<exists>doms warns.
     listCredentials e fs a = Inr ((doms, warns), a') \<and>
     (let lines = filter (\<lambda>line. canonicalLine line \<noteq> []) (splitLines content)
      in warns = spec_warnings [] lines \<and>
         (\<forall>d. map_of doms d = spec_entry d lines) \<and>
         (\<forall>d. (map_of doms d \<noteq> None) =
               (\<exists>line \<in> set lines. passesChecks line \<and> lineDomain line = Some d)) \<and>
         (\<forall>line \<in> set lines. \<not> passesChecks line \<longrightarrow>
               (\<exists>d. lineDomain line = Some d \<and>
                    (InvalidDomain d \<in> set warns \<or> InvalidCredentials d \<in> set warns))) \<and>
         (\<forall>xs line ys d. lines = xs @ line # ys \<and> passesChecks line \<and> lineDomain line = Some d \<and>
               (\<exists>l \<in> set xs. passesChecks l \<and> lineDomain l = Some d) \<longrightarrow>
               DuplicateDomain d \<in> set warns) \<and>
         length doms + length warns = length lines)"
proof -
  define lines where "lines = filter (\<lambda>line. canonicalLine line \<noteq> []) (splitLines content)"
  have "\<forall>d. (map_of ([] :: domains) d \<noteq> None) =
      (\<exists>l \<in> set []. passesChecks l \<and> lineDomain l = Some d)" by simp
  from forEachLine_spec [OF this, of "[]" lines]
  obtain doms where r: "forEachLine ([], []) lines = Inr (doms, spec_warnings [] lines)"
    and m: "\<forall>d. map_of doms d = spec_entry d lines"
    and n: "length doms + length (spec_warnings [] lines) = length lines"
    by auto
  have l: "listCredentials e fs a = Inr ((doms, spec_warnings [] lines), a')"
    using listCredentials_eq [OF assms] r by (simp add: lines_def)
  have k: "\<forall>d. (map_of doms d \<noteq> None) =
      (\<exists>line \<in> set lines. passesChecks line \<and> lineDomain line = Some d)"
    using m spec_entry_None_iff by simp
  have b: "\<exists>d. lineDomain line = Some d \<and>
      (InvalidDomain d \<in> set (spec_warnings [] lines) \<or>
       InvalidCredentials d \<in> set (spec_warnings [] lines))"
    if "line \<in> set lines" "\<not> passesChecks line" for line
  proof -
    obtain d where d: "lineDomain line = Some d" using lineDomain_Some by blast
    from that(1) obtain xs ys where s: "lines = xs @ line # ys" by (meson split_list)
    from that(2) d have "spec_warning ([] @ xs) line = Some (InvalidDomain d) \<or>
        spec_warning ([] @ xs) line = Some (InvalidCredentials d)"
      by (auto simp: spec_warning_def passesChecks_def)
    then show ?thesis using spec_warnings_mem [of "[]" xs line _ ys] d s by auto
  qed
  have u: "DuplicateDomain d \<in> set (spec_warnings [] lines)"
    if "lines = xs @ line # ys" "passesChecks line" "lineDomain line = Some d"
      "\<exists>l \<in> set xs. passesChecks l \<and> lineDomain l = Some d" for xs line ys d
  proof -
    from that have "spec_warning ([] @ xs) line = Some (DuplicateDomain d)"
      by (auto simp: spec_warning_def passesChecks_def list_ex_iff)
    then show ?thesis using spec_warnings_mem [of "[]" xs line _ ys] that(1) by auto
  qed
  show ?thesis
    unfolding Let_def lines_def [symmetric]
    using l m k n b u by blast
qed

theorem listCredentials_skips_bad_lines_witness:
  "(let K = ''0123456789abcdef0123456789abcdef:0123456789abcdef0123456789abcdef'';
        content = ''shop.jumpseller.com '' @ K @ [CHR 0x0A] @ ''shop '' @ K @ [CHR 0x0A] @
          ''# note'' @ [CHR 0x0A] @ ''shop.jumpseller.com '' @ K @ '' # again'' @ [CHR 0x0A] @
          ''other.localhost abc'';
        lines = filter (\<lambda>line. canonicalLine line \<noteq> []) (splitLines content);
        e = \<lparr>homedir = ''/home/u'', cwd = ''/home/u''\<rparr>;
        fs = (\<lambda>_. ENOENT)(''/home/u/.config/jumpseller/credentials'' := Data (content @ [CHR 0x0A]));
        a' = newAuth\<lparr>credentialsText := Some content\<rparr>
    in loadCredentialsFile e fs newAuth = Inr (content, a') \<and>
       listCredentials e fs newAuth =
         Inr (([(''shop.jumpseller.com'', Some K)],
               [InvalidDomain ''shop'', DuplicateDomain ''shop.jumpseller.com'',
                InvalidCredentials ''other.localhost'']), a') \<and>
       spec_warnings [] lines =
         [InvalidDomain ''shop'', DuplicateDomain ''shop.jumpseller.com'',
          InvalidCredentials ''other.localhost''] \<and>
       spec_entry ''shop.jumpseller.com'' lines = Some (Some K) \<and>
       spec_entry ''shop'' lines = None \<and>
       length lines = 4)"
proof -
  define K where "K = ''0123456789abcdef0123456789abcdef:0123456789abcdef0123456789abcdef''"
  define content where "content = ''shop.jumpseller.com '' @ K @ [CHR 0x0A] @ ''shop '' @ K @ [CHR 0x0A] @
          ''# note'' @ [CHR 0x0A] @ ''shop.jumpseller.com '' @ K @ '' # again'' @ [CHR 0x0A] @
          ''other.localhost abc''"
  define lines where "lines = filter (\<lambda>line. canonicalLine line \<noteq> []) (splitLines content)"
  define e where "e = \<lparr>homedir = ''/home/u'', cwd = ''/home/u''\<rparr>"
  define fs :: filesystem where
    "fs = (\<lambda>_. ENOENT)(''/home/u/.config/jumpseller/credentials'' := Data (content @ [CHR 0x0A]))"
  define a' where "a' = newAuth\<lparr>credentialsText := Some content\<rparr>"
  have h: "loadCredentialsFile e fs newAuth = Inr (content, a')"
    unfolding e_def fs_def a'_def content_def K_def by code_simp
  have ev: "listCredentials e fs newAuth =
         Inr (([(''shop.jumpseller.com'', Some K)],
               [InvalidDomain ''shop'', DuplicateDomain ''shop.jumpseller.com'',
                InvalidCredentials ''other.localhost'']), a')"
    unfolding e_def fs_def a'_def content_def K_def by code_simp
  from listCredentials_skips_bad_lines [OF h]
  obtain doms warns where l: "listCredentials e fs newAuth = Inr ((doms, warns), a')"
    and w0: "warns = spec_warnings [] lines"
    and m0: "\<forall>d. map_of doms d = spec_entry d lines"
    and n0: "length doms + length warns = length lines"
    unfolding Let_def lines_def [symmetric] by blast
  from l ev have dw: "doms = [(''shop.jumpseller.com'', Some K)]"
    "warns = [InvalidDomain ''shop'', DuplicateDomain ''shop.jumpseller.com'',
          InvalidCredentials ''other.localhost'']"
    by simp_all
  have w: "spec_warnings [] lines = [InvalidDomain ''shop'', DuplicateDomain ''shop.jumpseller.com'',
          InvalidCredentials ''other.localhost'']"
    using w0 dw(2) by simp
  have n: "length lines = 4" using n0 unfolding dw by simp
  have "spec_entry ''shop.jumpseller.com'' lines = Some (Some K)"
    "spec_entry ''shop'' lines = None"
    using m0 [rule_format, of "''shop.jumpseller.com''"] m0 [rule_format, of "''shop''"]
    unfolding dw by simp_all
  then show ?thesis
    using h ev w n
    unfolding Let_def K_def [symmetric] content_def [symmetric] lines_def [symmetric]
      e_def [symmetric] fs_def [symmetric] a'_def [symmetric]
    by simp
qed

text \<open>
  Claim C10. Every key of the mapping that \<open>listCredentials()\<close> returns is a fixed point of
  \<open>parseStoreReference\<close>, and every value is a string that passes the credential-format
  check. A line whose domain parses but is not in canonical form (a bare label, say) only
  gives an invalid-domain warning and leaves the mapping as it was: a key is in the mapping
  only if some line has exactly that key as its domain, so the canonical form of such a line
  is absent unless another line spells it out.
\<close>

theorem listCredentials_keys_canonical:
  assumes "loadCredentialsFile e fs a = Inr (content, a')"
  shows "\<exists>doms warns.
     listCredentials e fs a = Inr ((doms, warns), a') \<and>
     (\<forall>(k, v) \<in> set doms.
        parseStoreReference k = (True, k) \<and> (\<exists>c. v = Some c \<and> validCredentials c)) \<and>
     (\<forall>k. (\<forall>line \<in> set (splitLines content). lineDomain line \<noteq> Some k) \<longrightarrow>
        map_of doms k = None) \<and>
     (\<forall>acc line d d'.
        lineDomain line = Some d \<and> parseStoreReference d = (True, d') \<and> d' \<noteq> d \<longrightarrow>
        listStep acc line = Inr (fst acc, snd acc @ [InvalidDomain d]))"
proof -
  define lines where "lines = filter (\<lambda>line. canonicalLine line \<noteq> []) (splitLines content)"
  have "\<forall>d. (map_of ([] :: domains) d \<noteq> None) =
      (\<exists>l \<in> set []. passesChecks l \<and> lineDomain l = Some d)" by simp
  from forEachLine_spec [OF this, of "[]" lines]
  obtain doms where r: "forEachLine ([], []) lines = Inr (doms, spec_warnings [] lines)"
    and m: "\<forall>d. map_of doms d = spec_entry d lines"
    by auto
  have l: "listCredentials e fs a = Inr ((doms, spec_warnings [] lines), a')"
    using listCredentials_eq [OF assms] r by (simp add: lines_def)
  have dist: "distinct (map fst doms)"
    using forEachLine_distinct [OF _ r] by simp
  have 1: "parseStoreReference k = (True, k) \<and> (\<exists>c. v = Some c \<and> validCredentials c)"
    if "(k, v) \<in> set doms" for k v
  proof -
    from that dist have "map_of doms k = Some v" by simp
    with m have "spec_entry k lines = Some v" by simp
    from spec_entry_Some [OF this] obtain line
      where "passesChecks line" "lineDomain line = Some k" "lineCredentials line = v" by blast
    then show ?thesis
      using validCredentials_toString [of v] by (auto simp: passesChecks_def)
  qed
  have 2: "map_of doms k = None"
    if "\<forall>line \<in> set (splitLines content). lineDomain line \<noteq> Some k" for k
  proof -
    from that have "\<not> (\<exists>line \<in> set lines. passesChecks line \<and> lineDomain line = Some k)"
      by (auto simp: lines_def)
    then show ?thesis using m spec_entry_None_iff by simp
  qed
  have 3: "listStep acc line = Inr (fst acc, snd acc @ [InvalidDomain d])"
    if "lineDomain line = Some d" "parseStoreReference d = (True, d')" "d' \<noteq> d"
    for acc line d d'
    using listStep_eq [OF that(1), of "fst acc" "snd acc"] that(2,3) by simp
  show ?thesis
    using l 1 2 3 by blast
qed

theorem listCredentials_keys_canonical_witness:
  "(let K = ''0123456789abcdef0123456789abcdef:0123456789abcdef0123456789abcdef'';
        content = ''shop '' @ K @ [CHR 0x0A] @ ''other.jumpseller.com '' @ K;
        e = \<lparr>homedir = ''/home/u'', cwd = ''/home/u''\<rparr>;
        a = newAuth\<lparr>credentialsText := Some content\<rparr>
    in loadCredentialsFile e (\<lambda>_. ENOENT) a = Inr (content, a) \<and>
       listCredentials e (\<lambda>_. ENOENT) a =
         Inr (([(''other.jumpseller.com'', Some K)], [InvalidDomain ''shop'']), a) \<and>
       parseStoreReference ''other.jumpseller.com'' = (True, ''other.jumpseller.com'') \<and>
       validCredentials K \<and>
       lineDomain (''shop '' @ K) = Some ''shop'' \<and>
       parseStoreReference ''shop'' = (True, ''shop.jumpseller.com'') \<and>
       ''shop.jumpseller.com'' \<noteq> ''shop'' \<and>
       listStep ([], []) (''shop '' @ K) = Inr ([], [InvalidDomain ''shop'']) \<and>
       map_of [(''other.jumpseller.com'', Some K)] ''shop.jumpseller.com'' = None)"
proof -
  define K where "K = ''0123456789abcdef0123456789abcdef:0123456789abcdef0123456789abcdef''"
  define content where "content = ''shop '' @ K @ [CHR 0x0A] @ ''other.jumpseller.com '' @ K"
  define e where "e = \<lparr>homedir = ''/home/u'', cwd = ''/home/u''\<rparr>"
  define a where "a = newAuth\<lparr>credentialsText := Some content\<rparr>"
  have h: "loadCredentialsFile e (\<lambda>_. ENOENT) a = Inr (content, a)"
    by (simp add: loadCredentialsFile_def a_def)
  have ev: "listCredentials e (\<lambda>_. ENOENT) a =
         Inr (([(''other.jumpseller.com'', Some K)], [InvalidDomain ''shop'']), a)"
    unfolding e_def a_def content_def K_def by code_simp
  have ld: "lineDomain (''shop '' @ K) = Some ''shop''"
    unfolding K_def by code_simp
  have ps: "parseStoreReference ''shop'' = (True, ''shop.jumpseller.com'')"
    by code_simp
  from listCredentials_keys_canonical [OF h]
  obtain doms warns where l: "listCredentials e (\<lambda>_. ENOENT) a = Inr ((doms, warns), a)"
    and k: "\<forall>(k, v) \<in> set doms.
        parseStoreReference k = (True, k) \<and> (\<exists>c. v = Some c \<and> validCredentials c)"
    and ab: "\<forall>k. (\<forall>line \<in> set (splitLines content). lineDomain line \<noteq> Some k) \<longrightarrow>
        map_of doms k = None"
    and st: "\<forall>acc line d d'.
        lineDomain line = Some d \<and> parseStoreReference d = (True, d') \<and> d' \<noteq> d \<longrightarrow>
        listStep acc line = Inr (fst acc, snd acc @ [InvalidDomain d])"
    by blast
  from l ev have dw: "doms = [(''other.jumpseller.com'', Some K)]" by simp
  from k have 1: "parseStoreReference ''other.jumpseller.com'' = (True, ''other.jumpseller.com'')"
    "validCredentials K"
    unfolding dw by auto
  from st [rule_format, of "''shop '' @ K" "''shop''" "''shop.jumpseller.com''" "([], [])"] ld ps
  have 2: "listStep ([], []) (''shop '' @ K) = Inr ([], [InvalidDomain ''shop''])" by simp
  have "\<forall>line \<in> set (splitLines content). lineDomain line \<noteq> Some ''shop.jumpseller.com''"
    unfolding content_def K_def by code_simp
  with ab have 3: "map_of [(''other.jumpseller.com'', Some K)] ''shop.jumpseller.com'' = None"
    unfolding dw by blast
  show ?thesis
    using h ev 1 2 3 ld ps
    unfolding Let_def K_def [symmetric] content_def [symmetric] e_def [symmetric] a_def [symmetric]
    by simp
qed

section \<open>Adding and removing credentials\<close>

lemma labelChar_clean: "labelChar ch \<or> ch = CHR ''.'' \<Longrightarrow> \<not> isSpace ch \<and> ch \<noteq> CHR ''#''"
  by (auto simp: labelChar_def isSpace_def)

lemma hexChar_clean: "hexChar ch \<or> ch = CHR '':'' \<Longrightarrow> \<not> isSpace ch \<and> ch \<noteq> CHR ''#''"
  by (auto simp: hexChar_def isSpace_def)

lemma parse_result_chars:
  assumes "parseStoreReference x = (True, y)"
  shows "y \<noteq> [] \<and> (\<forall>ch \<in> set y. labelChar ch \<or> ch = CHR ''.'')"
proof -
  let ?s = "strippedReference x"
  have suffix: "y \<noteq> [] \<and> (\<forall>ch \<in> set y. labelChar ch \<or> ch = CHR ''.'')"
    if "matchesLabel L" "y = L @ suffix" "\<forall>ch \<in> set suffix. labelChar ch \<or> ch = CHR ''.''"
    for L suffix
    using that by (auto simp: matchesLabel_def list_all_iff)
  consider (test) "?s = ''test''" "y = ''test.localhost''"
    | (com) "matchesLabelSuffix ''.jumpseller.com'' ?s" "y = ?s"
    | (loc) "matchesLabelSuffix ''.localhost'' ?s" "y = ?s"
    | (lab) "matchesLabel ?s" "y = ?s @ ''.jumpseller.com''"
  proof -
    have p: "(if ?s = ''test'' then (True, ''test.localhost'')
         else if matchesLabelSuffix ''.jumpseller.com'' ?s then (True, ?s)
         else if matchesLabelSuffix ''.localhost'' ?s then (True, ?s)
         else if matchesLabel ?s then (True, ?s @ ''.jumpseller.com'')
         else (False, ?s)) = (True, y)"
      using assms unfolding parseStoreReference_def Let_def .
    assume a: "?s = ''test'' \<Longrightarrow> y = ''test.localhost'' \<Longrightarrow> thesis"
      "matchesLabelSuffix ''.jumpseller.com'' ?s \<Longrightarrow> y = ?s \<Longrightarrow> thesis"
      "matchesLabelSuffix ''.localhost'' ?s \<Longrightarrow> y = ?s \<Longrightarrow> thesis"
      "matchesLabel ?s \<Longrightarrow> y = ?s @ ''.jumpseller.com'' \<Longrightarrow> thesis"
    show thesis
    proof (cases "?s = ''test''")
      case True
      from p have "y = ''test.localhost''" unfolding True by simp
      with True a(1) show thesis by blast
    next
      case F1: False
      show thesis
      proof (cases "matchesLabelSuffix ''.jumpseller.com'' ?s")
        case True
        from p F1 True have "y = ?s" by simp
        with True a(2) show thesis by blast
      next
        case F2: False
        show thesis
        proof (cases "matchesLabelSuffix ''.localhost'' ?s")
          case True
          from p F1 F2 True have "y = ?s" by simp
          with True a(3) show thesis by blast
        next
          case F3: False
          show thesis
          proof (cases "matchesLabel ?s")
            case True
            from p F1 F2 F3 True have "y = ?s @ ''.jumpseller.com''" by simp
            with True a(4) show thesis by blast
          next
            case False
            with p F1 F2 F3 show thesis by simp
          qed
        qed
      qed
    qed
  qed
  then show ?thesis
  proof cases
    case test
    then show ?thesis by (simp add: labelChar_def)
  next
    case com
    then obtain L where "matchesLabel L" "y = L @ ''.jumpseller.com''"
      unfolding matchesLabelSuffix_iff by auto
    then show ?thesis by (rule suffix) (simp add: labelChar_def)
  next
    case loc
    then obtain L where "matchesLabel L" "y = L @ ''.localhost''"
      unfolding matchesLabelSuffix_iff by auto
    then show ?thesis by (rule suffix) (simp add: labelChar_def)
  next
    case lab
    then show ?thesis by (rule suffix) (simp add: labelChar_def)
  qed
qed

lemma valid_domain_clean: "parseStoreReference d = (True, d) \<Longrightarrow> cleanToken d"
  using parse_result_chars [of d d] labelChar_clean by (auto simp: cleanToken_def)

lemma valid_credentials_clean:
  assumes "validCredentials c"
  shows "cleanToken c"
proof -
  let ?P = "\<lambda>x. x \<noteq> CHR '':''"
  from assms obtain x rest where r: "dropWhile ?P c = x # rest"
    and h: "hexRun (takeWhile ?P c)" "hexRun rest"
    unfolding validCredentials_def by (cases "dropWhile ?P c") auto
  have x: "x = CHR '':''"
    using hd_dropWhile [of ?P c] r by simp
  have "set (takeWhile ?P c @ dropWhile ?P c) = set c" by simp
  then have "set c = set (takeWhile ?P c) \<union> set (x # rest)"
    unfolding r by simp
  moreover have "\<forall>ch \<in> set (takeWhile ?P c) \<union> set rest. hexChar ch"
    using h by (auto simp: hexRun_def list_all_iff)
  ultimately have "\<forall>ch \<in> set c. hexChar ch \<or> ch = CHR '':''" using x by auto
  moreover have "c \<noteq> []" using r by auto
  ultimately show ?thesis using hexChar_clean by (auto simp: cleanToken_def)
qed

lemma trim_clean:
  assumes "s \<noteq> []" "\<not> isSpace (hd s)" "\<not> isSpace (last s)"
  shows "trim s = s"
proof -
  have 1: "dropWhile isSpace s = s" using assms by (cases s) auto
  have "rev s \<noteq> []" "\<not> isSpace (hd (rev s))" using assms by (simp_all add: hd_rev)
  then have "dropWhile isSpace (rev s) = rev s" by (cases "rev s") auto
  then show ?thesis by (simp add: trim_def trimStart_def trimEnd_def 1)
qed

lemma split_ws_char:
  "\<not> isSpace c \<Longrightarrow> split_ws (c # cs) = (c # hd (split_ws cs)) # tl (split_ws cs)"
  by (cases "split_ws cs") (use split_ws_ne in auto)

lemma split_ws_space:
  "isSpace c \<Longrightarrow> split_ws (c # cs) = [] # split_ws (dropWhile isSpace cs)"
  by simp

declare split_ws.simps(2) [simp del]

lemma split_ws_clean: "\<forall>x \<in> set s. \<not> isSpace x \<Longrightarrow> split_ws s = [s]"
  by (induction s) (simp_all add: split_ws_char)

lemma split_ws_token:
  "\<forall>x \<in> set a. \<not> isSpace x \<Longrightarrow> isSpace sp \<Longrightarrow>
   split_ws (a @ sp # b) = a # split_ws (dropWhile isSpace b)"
  by (induction a) (simp_all add: split_ws_char split_ws_space)

lemma credential_line:
  assumes "cleanToken d" "cleanToken c"
  shows "canonicalLine (d @ '' '' @ c) = d @ '' '' @ c"
    and "split_ws (d @ '' '' @ c) = [d, c]"
    and "CHR 0x0A \<notin> set (d @ '' '' @ c)"
proof -
  let ?l = "d @ '' '' @ c"
  have d: "d \<noteq> []" "\<forall>x \<in> set d. \<not> isSpace x" "\<forall>x \<in> set d. x \<noteq> CHR ''#''"
    and c: "c \<noteq> []" "\<forall>x \<in> set c. \<not> isSpace x" "\<forall>x \<in> set c. x \<noteq> CHR ''#''"
    using assms unfolding cleanToken_def by blast+
  have sp: "isSpace CHR '' ''" by (simp add: isSpace_def)
  have nh: "\<forall>x \<in> set ?l. x \<noteq> CHR ''#''" using d(3) c(3) by auto
  have t: "takeWhile (\<lambda>x. x \<noteq> CHR ''#'') ?l = ?l"
    unfolding takeWhile_eq_all_conv using nh by blast
  have hl: "hd ?l = hd d" "last ?l = last c" using d(1) c(1) by simp_all
  have "\<not> isSpace (hd d)" "\<not> isSpace (last c)" using d(1,2) c(1,2) by simp_all
  then have "\<not> isSpace (hd ?l)" "\<not> isSpace (last ?l)" unfolding hl by blast+
  moreover have "?l \<noteq> []" by simp
  ultimately have "trim ?l = ?l" by (rule trim_clean [rotated])
  then show "canonicalLine ?l = ?l" unfolding canonicalLine_def t .
  have dc: "dropWhile isSpace c = c" using c(1,2) by (cases c) simp_all
  have "split_ws (d @ CHR '' '' # c) = d # split_ws (dropWhile isSpace c)"
    using d(2) sp by (rule split_ws_token)
  then show "split_ws ?l = [d, c]"
    unfolding dc split_ws_clean [OF c(2)] by simp
  show "CHR 0x0A \<notin> set ?l" using d(2) c(2) isSpace_nl by auto
qed

lemma set_canonLines:
  "set (canonLines content) =
   canonicalLine ` set (filter (\<lambda>line. canonicalLine line \<noteq> []) (splitLines content))"
  by (auto simp: canonLines_def)

lemma entry_of_listed_line:
  assumes d: "parseStoreReference d = (True, d)" and c: "validCredentials c"
      and present: "d @ '' '' @ c \<in> set (canonLines content)"
      and only: "\<forall>cl \<in> set (canonLines content). firstOf (split_ws cl) = Some d \<longrightarrow> cl = d @ '' '' @ c"
      and load: "loadCredentialsFile e fs a = Inr (content, a')"
  shows "\<exists>doms warns. listCredentials e fs a = Inr ((doms, warns), a') \<and>
           map_of doms d = Some (Some c)"
proof -
  define lines where "lines = filter (\<lambda>line. canonicalLine line \<noteq> []) (splitLines content)"
  note cl = credential_line [OF valid_domain_clean [OF d] valid_credentials_clean [OF c]]
  have "\<forall>d. (map_of ([] :: domains) d \<noteq> None) =
      (\<exists>l \<in> set []. passesChecks l \<and> lineDomain l = Some d)" by simp
  from forEachLine_spec [OF this, of "[]" lines]
  obtain doms where r: "forEachLine ([], []) lines = Inr (doms, spec_warnings [] lines)"
    and m: "\<forall>d. map_of doms d = spec_entry d lines"
    by auto
  have l: "listCredentials e fs a = Inr ((doms, spec_warnings [] lines), a')"
    using listCredentials_eq [OF load] r by (simp add: lines_def)
  have tok: "lineDomain line = Some d \<and> lineCredentials line = Some c \<and> passesChecks line"
    if "canonicalLine line = d @ '' '' @ c" for line
    using that cl(2) d c by (simp add: lineDomain_def lineCredentials_def passesChecks_def toString_def)
  from present obtain line where "line \<in> set lines" "canonicalLine line = d @ '' '' @ c"
    unfolding set_canonLines lines_def [symmetric] by auto
  with tok have 1: "\<exists>line \<in> set lines. passesChecks line \<and> lineDomain line = Some d" by blast
  have 2: "\<forall>line \<in> set lines. passesChecks line \<and> lineDomain line = Some d \<longrightarrow>
      lineCredentials line = Some c"
  proof (intro ballI impI)
    fix line assume "line \<in> set lines" and p: "passesChecks line \<and> lineDomain line = Some d"
    then have "canonicalLine line \<in> set (canonLines content)"
      unfolding set_canonLines lines_def [symmetric] by simp
    moreover from p have "firstOf (split_ws (canonicalLine line)) = Some d"
      by (simp add: lineDomain_def)
    ultimately have "canonicalLine line = d @ '' '' @ c" using only by blast
    with tok show "lineCredentials line = Some c" by blast
  qed
  from spec_entry_unique [OF 1 2] m have "map_of doms d = Some (Some c)" by simp
  with l show ?thesis by blast
qed

lemma addCredentials_text:
  fixes content :: string
  assumes d: "parseStoreReference d = (True, d)" and c: "validCredentials c"
  defines "entry \<equiv> d @ '' '' @ c"
  defines "lines \<equiv> map (\<lambda>line. if Some d \<noteq> lineDomain line then line else entry) (splitLines content)"
  defines "lines' \<equiv> (if \<forall>line \<in> set (splitLines content). Some d \<noteq> lineDomain line
                      then lines @ [entry] else lines)"
  shows "entry \<in> set (canonLines (joinLines lines'))"
    and "\<forall>cl \<in> set (canonLines (joinLines lines')). firstOf (split_ws cl) = Some d \<longrightarrow> cl = entry"
proof -
  note cl = credential_line [OF valid_domain_clean [OF d] valid_credentials_clean [OF c],
      folded entry_def]
  have en: "entry \<noteq> []" by (simp add: entry_def)
  have mem: "l = entry \<or> (l \<in> set (splitLines content) \<and> Some d \<noteq> lineDomain l)"
    if "l \<in> set lines'" for l
    using that by (auto simp: lines'_def lines_def split: if_splits)
  have "\<forall>l \<in> set lines'. CHR 0x0A \<notin> set l"
    using mem cl(3) splitLines_no_nl by blast
  then have j: "canonLines (joinLines lines') = filter (\<lambda>l. l \<noteq> []) (map canonicalLine lines')"
    by (rule canonLines_joinLines)
  have "entry \<in> set lines'"
    by (auto simp: lines'_def lines_def)
  then show "entry \<in> set (canonLines (joinLines lines'))"
    unfolding j using cl(1) en by force
  show "\<forall>cl \<in> set (canonLines (joinLines lines')). firstOf (split_ws cl) = Some d \<longrightarrow> cl = entry"
  proof (intro ballI impI)
    fix x assume "x \<in> set (canonLines (joinLines lines'))" and f: "firstOf (split_ws x) = Some d"
    then obtain l where l: "l \<in> set lines'" "x = canonicalLine l" unfolding j by auto
    from mem [OF l(1)] show "x = entry"
    proof
      assume "l = entry"
      then show ?thesis using l(2) cl(1) by simp
    next
      assume "l \<in> set (splitLines content) \<and> Some d \<noteq> lineDomain l"
      then show ?thesis using f l(2) by (simp add: lineDomain_def)
    qed
  qed
qed

text \<open>
  Claim C5. Let \<open>d\<close> be a valid domain (\<open>parseStoreReference\<close> returns it unchanged) and \<open>c\<close> a
  valid credential, in any state of the object and of the disk in which the credential text
  can be loaded. Then \<open>addCredentials(d, c)\<close> returns. Whenever the \<open>flush()\<close> that follows
  returns, it leaves the object as it was, and \<open>listCredentials()\<close> maps \<open>d\<close> to \<open>c\<close>, both in
  the same process and in a fresh process that reads the file \<open>flush()\<close> wrote. And \<open>flush()\<close>
  does return when the operating system carries out its three calls.
\<close>

theorem addCredentials_round_trip:
  assumes "parseStoreReference d = (True, d)" and "validCredentials c"
      and "loadCredentialsFile e fs a = Inr (content, a0)"
  shows "\<exists>a1 content1.
           addCredentials e fs d c a = Inr a1 \<and> credentialsText a1 = Some content1 \<and>
           (\<forall>a1' calls fs'. flush e os rnd fs a1 = Inr (a1', calls, fs') \<longrightarrow>
              a1' = a1 \<and>
              (\<exists>doms warns. listCredentials e fs' a1 = Inr ((doms, warns), a1) \<and>
                 map_of doms d = Some (Some c)) \<and>
              (\<exists>doms warns a2. listCredentials e fs' newAuth = Inr ((doms, warns), a2) \<and>
                 map_of doms d = Some (Some c))) \<and>
           (os fs (Mkdir (CONFIG_DIR e)) \<and>
            os fs (WriteFile (CREDENTIALS_FILE e @ ''.tmp.'' @ rnd) (trimStart content1)) \<and>
            os (fs(CREDENTIALS_FILE e @ ''.tmp.'' @ rnd := Data (trimStart content1)))
              (Rename (CREDENTIALS_FILE e @ ''.tmp.'' @ rnd) (CREDENTIALS_FILE e)) \<longrightarrow>
            (\<exists>calls fs'. flush e os rnd fs a1 = Inr (a1, calls, fs')))"
proof -
  define entry where "entry = d @ '' '' @ c"
  define lines where
    "lines = map (\<lambda>line. if Some d \<noteq> lineDomain line then line else entry) (splitLines content)"
  define lines' where
    "lines' = (if \<forall>line \<in> set (splitLines content). Some d \<noteq> lineDomain line
               then lines @ [entry] else lines)"
  define T where "T = joinLines lines'"
  define a1 where "a1 = a0\<lparr>credentialsText := Some T, credentialsTextChanged := True\<rparr>"
  have add: "addCredentials e fs d c a = Inr a1"
    unfolding addCredentials_def a1_def T_def lines'_def lines_def entry_def
    using assms(3) by (simp add: Let_def)
  have dirty: "credentialsTextChanged a1" "credentialsText a1 = Some T"
    by (simp_all add: a1_def)
  from addCredentials_text [OF assms(1,2), of content]
  have present: "entry \<in> set (canonLines T)"
    and only: "\<forall>cl \<in> set (canonLines T). firstOf (split_ws cl) = Some d \<longrightarrow> cl = entry"
    unfolding T_def lines'_def lines_def entry_def by blast+
  have after: "a1' = a1 \<and>
      (\<exists>doms warns. listCredentials e fs' a1 = Inr ((doms, warns), a1) \<and>
         map_of doms d = Some (Some c)) \<and>
      (\<exists>doms warns a2. listCredentials e fs' newAuth = Inr ((doms, warns), a2) \<and>
         map_of doms d = Some (Some c))"
    if fl: "flush e os rnd fs a1 = Inr (a1', calls, fs')" for a1' calls fs'
  proof -
    from flush_returned [OF fl dirty]
    have same: "a1' = a1" and written: "fs' (CREDENTIALS_FILE e) = Data (trimStart T)" by blast+
    have load1: "loadCredentialsFile e fs' a1 = Inr (T, a1)"
      by (simp add: loadCredentialsFile_def a1_def)
    from entry_of_listed_line [OF assms(1,2) present [unfolded entry_def]
        only [unfolded entry_def] load1]
    have l1: "\<exists>doms warns. listCredentials e fs' a1 = Inr ((doms, warns), a1) \<and>
         map_of doms d = Some (Some c)" .
    define T' where "T' = trim (trimStart T)"
    have load2: "loadCredentialsFile e fs' newAuth =
        Inr (T', newAuth\<lparr>credentialsText := Some T'\<rparr>)"
      using written
      by (simp add: loadCredentialsFile_def newAuth_def readFileIfExists_def T'_def)
    have cl: "canonLines T' = canonLines T"
      by (simp add: T'_def canonLines_trim canonLines_trimStart)
    from entry_of_listed_line [OF assms(1,2) present [unfolded entry_def, folded cl]
        only [unfolded entry_def, folded cl] load2]
    have l2: "\<exists>doms warns a2. listCredentials e fs' newAuth = Inr ((doms, warns), a2) \<and>
         map_of doms d = Some (Some c)" by blast
    from same l1 l2 show ?thesis by blast
  qed
  have returns: "\<exists>calls fs'. flush e os rnd fs a1 = Inr (a1, calls, fs')"
    if "os fs (Mkdir (CONFIG_DIR e)) \<and>
        os fs (WriteFile (CREDENTIALS_FILE e @ ''.tmp.'' @ rnd) (trimStart T)) \<and>
        os (fs(CREDENTIALS_FILE e @ ''.tmp.'' @ rnd := Data (trimStart T)))
          (Rename (CREDENTIALS_FILE e @ ''.tmp.'' @ rnd) (CREDENTIALS_FILE e))"
    using flush_permitted [OF dirty, of os fs e rnd] that by blast
  from add dirty(2) after returns show ?thesis by blast
qed

theorem addCredentials_round_trip_witness:
  "(let K = ''0123456789abcdef0123456789abcdef:0123456789abcdef0123456789abcdef'';
        K0 = ''ffffffffffffffffffffffffffffffff:00000000000000000000000000000000'';
        d = ''shop.jumpseller.com'';
        e = \<lparr>homedir = ''/home/u'', cwd = ''/home/u''\<rparr>;
        content = ''# stores'' @ [CHR 0x0A] @ d @ '' '' @ K0;
        content1 = ''# stores'' @ [CHR 0x0A] @ d @ '' '' @ K @ [CHR 0x0A];
        fs = (\<lambda>_. ENOENT)(''/home/u/.config/jumpseller/credentials'' := Data (content @ [CHR 0x0A]));
        a0 = newAuth\<lparr>credentialsText := Some content\<rparr>;
        a1 = a0\<lparr>credentialsText := Some content1, credentialsTextChanged := True\<rparr>;
        os = (\<lambda>fs call. True)
    in parseStoreReference d = (True, d) \<and> validCredentials K \<and>
       loadCredentialsFile e fs newAuth = Inr (content, a0) \<and>
       addCredentials e fs d K newAuth = Inr a1 \<and>
       (\<exists>calls fs'.
           flush e os ''r1'' fs a1 = Inr (a1, calls, fs') \<and>
           fs' ''/home/u/.config/jumpseller/credentials'' = Data content1 \<and>
           (\<exists>doms warns. listCredentials e fs' a1 = Inr ((doms, warns), a1) \<and>
              map_of doms d = Some (Some K)) \<and>
           (\<exists>doms warns a2. listCredentials e fs' newAuth = Inr ((doms, warns), a2) \<and>
              map_of doms d = Some (Some K))))"
proof -
  define K where "K = ''0123456789abcdef0123456789abcdef:0123456789abcdef0123456789abcdef''"
  define K0 where "K0 = ''ffffffffffffffffffffffffffffffff:00000000000000000000000000000000''"
  define d where "d = ''shop.jumpseller.com''"
  define e where "e = \<lparr>homedir = ''/home/u'', cwd = ''/home/u''\<rparr>"
  define content where "content = ''# stores'' @ [CHR 0x0A] @ d @ '' '' @ K0"
  define content1 where "content1 = ''# stores'' @ [CHR 0x0A] @ d @ '' '' @ K @ [CHR 0x0A]"
  define fs :: filesystem where
    "fs = (\<lambda>_. ENOENT)(''/home/u/.config/jumpseller/credentials'' := Data (content @ [CHR 0x0A]))"
  define a0 where "a0 = newAuth\<lparr>credentialsText := Some content\<rparr>"
  define a1 where "a1 = a0\<lparr>credentialsText := Some content1, credentialsTextChanged := True\<rparr>"
  define os :: platform where "os = (\<lambda>fs call. True)"
  have h1: "parseStoreReference d = (True, d)" unfolding d_def by code_simp
  have h2: "validCredentials K" unfolding K_def by code_simp
  have h3: "loadCredentialsFile e fs newAuth = Inr (content, a0)"
    unfolding e_def fs_def a0_def content_def d_def K0_def by code_simp
  have ev: "addCredentials e fs d K newAuth = Inr a1"
    unfolding e_def fs_def a1_def a0_def content_def content1_def d_def K0_def K_def by code_simp
  have cf: "CREDENTIALS_FILE e = ''/home/u/.config/jumpseller/credentials''"
    unfolding e_def by code_simp
  have ts: "trimStart content1 = content1"
    unfolding content1_def d_def K_def by code_simp
  from addCredentials_round_trip [OF h1 h2 h3, of os "''r1''"]
  obtain b content2 where add: "addCredentials e fs d K newAuth = Inr b"
    and tx: "credentialsText b = Some content2"
    and after: "\<forall>a1' calls fs'. flush e os ''r1'' fs b = Inr (a1', calls, fs') \<longrightarrow>
              a1' = b \<and>
              (\<exists>doms warns. listCredentials e fs' b = Inr ((doms, warns), b) \<and>
                 map_of doms d = Some (Some K)) \<and>
              (\<exists>doms warns a2. listCredentials e fs' newAuth = Inr ((doms, warns), a2) \<and>
                 map_of doms d = Some (Some K))"
    and returns: "os fs (Mkdir (CONFIG_DIR e)) \<and>
            os fs (WriteFile (CREDENTIALS_FILE e @ ''.tmp.'' @ ''r1'') (trimStart content2)) \<and>
            os (fs(CREDENTIALS_FILE e @ ''.tmp.'' @ ''r1'' := Data (trimStart content2)))
              (Rename (CREDENTIALS_FILE e @ ''.tmp.'' @ ''r1'') (CREDENTIALS_FILE e)) \<longrightarrow>
            (\<exists>calls fs'. flush e os ''r1'' fs b = Inr (b, calls, fs'))"
    by blast
  from add ev have b: "b = a1" by simp
  have dirty: "credentialsTextChanged a1" "credentialsText a1 = Some content1"
    by (simp_all add: a1_def)
  from returns obtain calls fs' where fl: "flush e os ''r1'' fs a1 = Inr (a1, calls, fs')"
    unfolding b by (auto simp: os_def)
  from flush_returned [OF fl dirty]
  have wr: "fs' ''/home/u/.config/jumpseller/credentials'' = Data content1"
    unfolding cf ts by simp
  from after [unfolded b, rule_format, OF fl] fl wr
  have "\<exists>calls fs'.
           flush e os ''r1'' fs a1 = Inr (a1, calls, fs') \<and>
           fs' ''/home/u/.config/jumpseller/credentials'' = Data content1 \<and>
           (\<exists>doms warns. listCredentials e fs' a1 = Inr ((doms, warns), a1) \<and>
              map_of doms d = Some (Some K)) \<and>
           (\<exists>doms warns a2. listCredentials e fs' newAuth = Inr ((doms, warns), a2) \<and>
              map_of doms d = Some (Some K))"
    by blast
  with h1 h2 h3 ev show ?thesis
    unfolding Let_def K_def [symmetric] K0_def [symmetric] d_def [symmetric] e_def [symmetric]
      content_def [symmetric] content1_def [symmetric] fs_def [symmetric] a0_def [symmetric]
      a1_def [symmetric] os_def [symmetric]
    by (intro conjI)
qed

section \<open>Removing a domain that has no entry\<close>

lemma forEachLine_cong:
  "map canonicalLine ls1 = map canonicalLine ls2 \<Longrightarrow> forEachLine acc ls1 = forEachLine acc ls2"
proof (induction ls1 arbitrary: ls2 acc)
  case Nil
  then show ?case by simp
next
  case (Cons l ls1)
  then obtain l' ls2' where s: "ls2 = l' # ls2'" "canonicalLine l = canonicalLine l'"
    "map canonicalLine ls1 = map canonicalLine ls2'"
    by (cases ls2) auto
  have "listStep acc l = listStep acc l'" by (simp add: listStep_def s(2))
  then show ?case using Cons.IH [OF s(3)] s(1) by (simp split: sum.splits)
qed

lemma map_canonical_listed:
  "map canonicalLine (filter (\<lambda>line. canonicalLine line \<noteq> []) (splitLines content)) =
   canonLines content"
  by (simp add: canonLines_def filter_map comp_def)

text \<open>
  Claim C7, as stated, fails: \<open>removeCredentials\<close> sets the dirty flag whether or not a line
  was removed, and it joins the lines again, which adds a final line feed to the text.
\<close>

theorem removeCredentials_counterexample:
  "lineDomain ''a.jumpseller.com k'' = Some ''a.jumpseller.com'' \<and>
   removeCredentials \<lparr>homedir = ''/home/u'', cwd = ''/home/u''\<rparr> (\<lambda>_. ENOENT) ''b.jumpseller.com''
     (newAuth\<lparr>credentialsText := Some ''a.jumpseller.com k''\<rparr>) =
   Inr (newAuth\<lparr>credentialsText := Some (''a.jumpseller.com k'' @ [CHR 0x0A]),
                credentialsTextChanged := True\<rparr>) \<and>
   ''a.jumpseller.com k'' @ [CHR 0x0A] \<noteq> ''a.jumpseller.com k''"
  by code_simp

text \<open>
  Claim C7, amended. For a domain \<open>d\<close> that no line of the credential text has,
  \<open>removeCredentials(d)\<close> removes no line: the new text is the old lines, without leading empty
  lines, joined again with a final line feed, and \<open>listCredentials()\<close> returns the same
  mapping and warnings as before. The dirty flag is set all the same.
\<close>

theorem removeCredentials_absent_amended:
  assumes "loadCredentialsFile e fs a = Inr (content, a0)"
      and "\<forall>line \<in> set (splitLines content). lineDomain line \<noteq> Some d"
  shows "\<exists>a1 r.
           removeCredentials e fs d a = Inr a1 \<and>
           a1 = a0\<lparr>credentialsText := Some (joinLines (splitLines content)),
                    credentialsTextChanged := True\<rparr> \<and>
           listCredentials e fs a = Inr (r, a0) \<and>
           listCredentials e fs a1 = Inr (r, a1)"
proof -
  define T where "T = joinLines (splitLines content)"
  define a1 where "a1 = a0\<lparr>credentialsText := Some T, credentialsTextChanged := True\<rparr>"
  have "filter (\<lambda>line. Some d \<noteq> lineDomain line) (splitLines content) = splitLines content"
    using assms(2) by (auto simp: filter_id_conv)
  then have rm: "removeCredentials e fs d a = Inr a1"
    using assms(1) by (simp add: removeCredentials_def a1_def T_def)
  have "canonLines T = filter (\<lambda>l. l \<noteq> []) (map canonicalLine (splitLines content))"
    unfolding T_def using splitLines_no_nl by (intro canonLines_joinLines) blast
  then have c: "canonLines T = canonLines content" by (simp add: canonLines_def)
  have same: "forEachLine ([], []) (filter (\<lambda>line. canonicalLine line \<noteq> []) (splitLines T)) =
      forEachLine ([], []) (filter (\<lambda>line. canonicalLine line \<noteq> []) (splitLines content))"
    by (rule forEachLine_cong) (simp add: map_canonical_listed c)
  have "\<forall>d. (map_of ([] :: domains) d \<noteq> None) =
      (\<exists>l \<in> set []. passesChecks l \<and> lineDomain l = Some d)" by simp
  from forEachLine_spec [OF this, of "[]" "filter (\<lambda>line. canonicalLine line \<noteq> []) (splitLines content)"]
  obtain r where r: "forEachLine ([], []) (filter (\<lambda>line. canonicalLine line \<noteq> []) (splitLines content)) = Inr r"
    by auto
  have l0: "listCredentials e fs a = Inr (r, a0)"
    using listCredentials_eq [OF assms(1)] r by simp
  have "loadCredentialsFile e fs a1 = Inr (T, a1)"
    by (simp add: loadCredentialsFile_def a1_def)
  from listCredentials_eq [OF this] same r
  have l1: "listCredentials e fs a1 = Inr (r, a1)" by simp
  from rm l0 l1 show ?thesis unfolding a1_def T_def by blast
qed

theorem removeCredentials_absent_amended_witness:
  "(let K = ''0123456789abcdef0123456789abcdef:0123456789abcdef0123456789abcdef'';
        content = ''a.jumpseller.com '' @ K;
        e = \<lparr>homedir = ''/home/u'', cwd = ''/home/u''\<rparr>;
        a = newAuth\<lparr>credentialsText := Some content\<rparr>;
        a1 = newAuth\<lparr>credentialsText := Some (content @ [CHR 0x0A]), credentialsTextChanged := True\<rparr>
    in loadCredentialsFile e (\<lambda>_. ENOENT) a = Inr (content, a) \<and>
       list_all (\<lambda>line. lineDomain line \<noteq> Some ''b.jumpseller.com'') (splitLines content) \<and>
       removeCredentials e (\<lambda>_. ENOENT) ''b.jumpseller.com'' a = Inr a1 \<and>
       listCredentials e (\<lambda>_. ENOENT) a = Inr (([(''a.jumpseller.com'', Some K)], []), a) \<and>
       listCredentials e (\<lambda>_. ENOENT) a1 = Inr (([(''a.jumpseller.com'', Some K)], []), a1))"
proof -
  define K where "K = ''0123456789abcdef0123456789abcdef:0123456789abcdef0123456789abcdef''"
  define content where "content = ''a.jumpseller.com '' @ K"
  define e where "e = \<lparr>homedir = ''/home/u'', cwd = ''/home/u''\<rparr>"
  define a where "a = newAuth\<lparr>credentialsText := Some content\<rparr>"
  define a1 where "a1 = newAuth\<lparr>credentialsText := Some (content @ [CHR 0x0A]), credentialsTextChanged := True\<rparr>"
  have h1: "loadCredentialsFile e (\<lambda>_. ENOENT) a = Inr (content, a)"
    by (simp add: loadCredentialsFile_def a_def)
  have h2': "list_all (\<lambda>line. lineDomain line \<noteq> Some ''b.jumpseller.com'') (splitLines content)"
    unfolding content_def K_def by code_simp
  then have h2: "\<forall>line \<in> set (splitLines content). lineDomain line \<noteq> Some ''b.jumpseller.com''"
    by (simp add: list_all_iff)
  have j: "joinLines (splitLines content) = content @ [CHR 0x0A]"
    unfolding content_def K_def by code_simp
  have ev: "listCredentials e (\<lambda>_. ENOENT) a = Inr (([(''a.jumpseller.com'', Some K)], []), a)"
    unfolding e_def a_def content_def K_def by code_simp
  from removeCredentials_absent_amended [OF h1 h2]
  obtain b r where rm: "removeCredentials e (\<lambda>_. ENOENT) ''b.jumpseller.com'' a = Inr b"
    and b: "b = a\<lparr>credentialsText := Some (joinLines (splitLines content)),
                    credentialsTextChanged := True\<rparr>"
    and l0: "listCredentials e (\<lambda>_. ENOENT) a = Inr (r, a)"
    and l1: "listCredentials e (\<lambda>_. ENOENT) b = Inr (r, b)"
    by blast
  have "b = a1" unfolding b j a_def a1_def by simp
  moreover from l0 ev have "r = ([(''a.jumpseller.com'', Some K)], [])" by simp
  ultimately show ?thesis
    using h1 h2' rm l0 l1
    unfolding Let_def K_def [symmetric] content_def [symmetric] e_def [symmetric]
      a_def [symmetric] a1_def [symmetric]
    by simp
qed

end
